theory Spec2Isabelle
  imports Main "HOL-Library.Monad_Syntax"
begin

section \<open>The board (board.py)\<close>

text \<open>
  \<^verbatim>\<open>Board.__init__\<close> stores \<^verbatim>\<open>self.size\<close> and \<^verbatim>\<open>self.board\<close>, a numpy array of
  \<^verbatim>\<open>size\<close> rows of \<^verbatim>\<open>size\<close> integers, indexed \<^verbatim>\<open>board[y][x]\<close>. The field \<^verbatim>\<open>size\<close> is
  called \<open>size_b\<close> here (\<open>size\<close> is a constant of HOL). \<^verbatim>\<open>numpy.zeros\<close> refuses a
  negative dimension, so the size of a board that exists is a natural number. The cell
  values are the integers the callers store: 0 for an empty cell, 1 and 2 for the stones.
\<close>

record Board =
  size_b :: nat
  board :: "int list list"

text \<open>The shape that \<^verbatim>\<open>numpy.zeros((size, size))\<close> gives and no method changes.\<close>

definition board_wf :: "Board \<Rightarrow> bool" where
  "board_wf b = (length (board b) = size_b b \<and> list_all (\<lambda>row. length row = size_b b) (board b))"

definition Board_init :: "nat \<Rightarrow> Board" where
  "Board_init n = \<lparr> size_b = n, board = replicate n (replicate n 0) \<rparr>"

text \<open>\<^verbatim>\<open>self.win_length = 5\<close>, set by the constructor and never assigned again.\<close>

definition win_length :: int where
  "win_length = 5"

text \<open>
  The read \<^verbatim>\<open>self.board[y][x]\<close>. Every read of the source stands behind a range check
  \<^verbatim>\<open>0 <= x < size and 0 <= y < size\<close> or inside \<^verbatim>\<open>for y in range(size): for x in range(size)\<close>,
  so numpy's wrap-around of negative indices and its IndexError are never reached.
\<close>

definition cell :: "Board \<Rightarrow> int \<Rightarrow> int \<Rightarrow> int" where
  "cell b x y = board b ! nat y ! nat x"

text \<open>The write \<^verbatim>\<open>board.board[y][x] = v\<close>, issued by the source at in-range coordinates only.\<close>

definition set_cell :: "Board \<Rightarrow> int \<Rightarrow> int \<Rightarrow> int \<Rightarrow> Board" where
  "set_cell b x y v = b\<lparr> board := (board b)[nat y := (board b ! nat y)[nat x := v]] \<rparr>"

definition in_range :: "Board \<Rightarrow> int \<Rightarrow> int \<Rightarrow> bool" where
  "in_range b x y = (0 \<le> x \<and> x < int (size_b b) \<and> 0 \<le> y \<and> y < int (size_b b))"

definition is_valid_move :: "Board \<Rightarrow> int \<Rightarrow> int \<Rightarrow> bool" where
  "is_valid_move b x y =
     (if x < 0 \<or> x \<ge> int (size_b b) \<or> y < 0 \<or> y \<ge> int (size_b b) then False
      else cell b x y = 0)"

text \<open>\<^verbatim>\<open>place_stone\<close> mutates the board and returns a flag: the model returns both.\<close>

definition place_stone :: "Board \<Rightarrow> int \<Rightarrow> int \<Rightarrow> int \<Rightarrow> bool \<times> Board" where
  "place_stone b x y p =
     (if is_valid_move b x y then (True, set_cell b x y p) else (False, b))"

text \<open>
  The \<^verbatim>\<open>while\<close> loop of \<^verbatim>\<open>count_direction\<close>. With \<^verbatim>\<open>dx = dy = 0\<close> on a cell of the player it
  never leaves the board, so the loop is a partial function: \<open>None\<close> is "does not return".
\<close>

partial_function (option) count_direction_loop ::
  "Board \<Rightarrow> int \<Rightarrow> int \<Rightarrow> int \<Rightarrow> int \<Rightarrow> int \<Rightarrow> int \<Rightarrow> int option" where
  "count_direction_loop b nx ny dx dy p count =
     (if 0 \<le> nx \<and> nx < int (size_b b) \<and> 0 \<le> ny \<and> ny < int (size_b b) \<and> cell b nx ny = p
      then count_direction_loop b (nx + dx) (ny + dy) dx dy p (count + 1)
      else Some count)"

declare count_direction_loop.simps [code]

definition count_direction :: "Board \<Rightarrow> int \<Rightarrow> int \<Rightarrow> int \<Rightarrow> int \<Rightarrow> int \<Rightarrow> int option" where
  "count_direction b x y dx dy p = count_direction_loop b (x + dx) (y + dy) dx dy p 0"

definition directions :: "(int \<times> int) list" where
  "directions = [(1, 0), (0, 1), (1, 1), (1, - 1)]"

text \<open>The \<^verbatim>\<open>for dx, dy in directions\<close> loop of \<^verbatim>\<open>check_win\<close>, with its early \<^verbatim>\<open>return True\<close>.\<close>

fun check_win_loop :: "Board \<Rightarrow> int \<Rightarrow> int \<Rightarrow> int \<Rightarrow> (int \<times> int) list \<Rightarrow> bool option" where
  "check_win_loop b x y p [] = Some False"
| "check_win_loop b x y p ((dx, dy) # ds) =
     do {
       fwd \<leftarrow> count_direction b x y dx dy p;
       bwd \<leftarrow> count_direction b x y (- dx) (- dy) p;
       if 1 + fwd + bwd \<ge> win_length then Some True else check_win_loop b x y p ds
     }"

definition check_win :: "Board \<Rightarrow> int \<Rightarrow> int \<Rightarrow> int \<Rightarrow> bool option" where
  "check_win b x y p = check_win_loop b x y p directions"

text \<open>\<^verbatim>\<open>range(n)\<close> for a natural number \<open>n\<close>.\<close>

definition py_range :: "nat \<Rightarrow> int list" where
  "py_range n = map int [0..<n]"

definition get_valid_moves :: "Board \<Rightarrow> (int \<times> int) list" where
  "get_valid_moves b =
     [(x, y). y \<leftarrow> py_range (size_b b), x \<leftarrow> py_range (size_b b), is_valid_move b x y]"

text \<open>\<^verbatim>\<open>np.all(self.board != 0)\<close>.\<close>

definition is_full :: "Board \<Rightarrow> bool" where
  "is_full b = list_all (list_all (\<lambda>v. v \<noteq> 0)) (board b)"

text \<open>\<^verbatim>\<open>reset\<close>: a fresh array of zeros of the same size.\<close>

definition reset :: "Board \<Rightarrow> Board" where
  "reset b = b\<lparr> board := replicate (size_b b) (replicate (size_b b) 0) \<rparr>"

section \<open>The search engine (ai.py)\<close>

text \<open>
  The cells in the order of \<^verbatim>\<open>for y in range(board.size): for x in range(board.size)\<close>, the
  loop head that \<^verbatim>\<open>is_game_over\<close> and \<^verbatim>\<open>evaluate_board\<close> share.
\<close>

definition all_cells :: "Board \<Rightarrow> (int \<times> int) list" where
  "all_cells b = [(x, y). y \<leftarrow> py_range (size_b b), x \<leftarrow> py_range (size_b b)]"

text \<open>
  \<^verbatim>\<open>AI.__init__\<close>: the search depth (stored, never read by \<^verbatim>\<open>get_best_move\<close>), the difficulty
  string, and the stone values of the engine (2) and of its opponent (1).
\<close>

record AI =
  depth :: nat
  difficulty :: string
  player :: int
  opponent :: int

definition AI_init :: "nat \<Rightarrow> string \<Rightarrow> AI" where
  "AI_init d diff = \<lparr> depth = d, difficulty = diff, player = 2, opponent = 1 \<rparr>"

text \<open>
  Scores are the integers of \<^verbatim>\<open>evaluate_board\<close> together with \<^verbatim>\<open>float('-inf')\<close> and
  \<^verbatim>\<open>float('inf')\<close>, which \<^verbatim>\<open>minimax\<close> and \<^verbatim>\<open>_minimax_move\<close> use as start values and as the
  outermost window. Python compares an integer with an infinity exactly.
\<close>

datatype score = NegInf | Fin int | PosInf

instantiation score :: linorder
begin

fun less_eq_score :: "score \<Rightarrow> score \<Rightarrow> bool" where
  "less_eq_score NegInf _ = True"
| "less_eq_score _ PosInf = True"
| "less_eq_score (Fin a) (Fin b) = (a \<le> b)"
| "less_eq_score _ _ = False"

definition less_score :: "score \<Rightarrow> score \<Rightarrow> bool" where
  "less_score a b = (a \<le> b \<and> \<not> b \<le> a)"

instance
proof
  fix x y z :: score
  show "(x < y) = (x \<le> y \<and> \<not> y \<le> x)"
    by (simp add: less_score_def)
  show "x \<le> x"
    by (cases x) simp_all
  show "x \<le> y \<Longrightarrow> y \<le> z \<Longrightarrow> x \<le> z"
    by (cases x; cases y; cases z) simp_all
  show "x \<le> y \<Longrightarrow> y \<le> x \<Longrightarrow> x = y"
    by (cases x; cases y) simp_all
  show "x \<le> y \<or> y \<le> x"
    by (cases x; cases y) auto
qed

end

text \<open>
  \<^verbatim>\<open>calculate_line_score(count, blocked)\<close>. Its only caller passes \<^verbatim>\<open>count >= 1\<close>, where
  \<^verbatim>\<open>10 ** (count - 1)\<close> is an integer power.
\<close>

definition calculate_line_score :: "int \<Rightarrow> int \<Rightarrow> int" where
  "calculate_line_score count blocked =
     (if count \<ge> 5 then 100000
      else if blocked = 2 then 0
      else let base_score = 10 ^ nat (count - 1)
           in if blocked = 1 then base_score div 2 else base_score)"

text \<open>
  The two \<^verbatim>\<open>while\<close> loops of \<^verbatim>\<open>evaluate_position\<close>: walk from \<open>(nx, ny)\<close> in steps of
  \<open>(dx, dy)\<close>, count the stones of \<open>p\<close>, and stop at the edge, at an empty cell, or at a
  stone of the other side, which counts as a blocked end. The second loop of the source
  steps by \<^verbatim>\<open>nx -= dx; ny -= dy\<close>: it is this loop with the direction negated. As in
  \<^verbatim>\<open>count_direction\<close>, a zero direction would not terminate, so the loop is partial.
\<close>

partial_function (option) scan_loop ::
  "Board \<Rightarrow> int \<Rightarrow> int \<Rightarrow> int \<Rightarrow> int \<Rightarrow> int \<Rightarrow> int \<Rightarrow> int \<Rightarrow> (int \<times> int) option" where
  "scan_loop b nx ny dx dy p count blocked =
     (if 0 \<le> nx \<and> nx < int (size_b b) \<and> 0 \<le> ny \<and> ny < int (size_b b) then
        (if cell b nx ny = p then scan_loop b (nx + dx) (ny + dy) dx dy p (count + 1) blocked
         else if cell b nx ny \<noteq> 0 then Some (count, blocked + 1)
         else Some (count, blocked))
      else Some (count, blocked))"

declare scan_loop.simps [code]

text \<open>\<^verbatim>\<open>evaluate_position\<close>: the sum of the line scores of the four directions.\<close>

fun evaluate_position_loop ::
  "Board \<Rightarrow> int \<Rightarrow> int \<Rightarrow> int \<Rightarrow> (int \<times> int) list \<Rightarrow> int \<Rightarrow> int option" where
  "evaluate_position_loop b x y p [] total_score = Some total_score"
| "evaluate_position_loop b x y p ((dx, dy) # ds) total_score =
     do {
       (count, blocked) \<leftarrow> scan_loop b (x + dx) (y + dy) dx dy p 1 0;
       (count, blocked) \<leftarrow> scan_loop b (x - dx) (y - dy) (- dx) (- dy) p count blocked;
       evaluate_position_loop b x y p ds (total_score + calculate_line_score count blocked)
     }"

definition evaluate_position :: "Board \<Rightarrow> int \<Rightarrow> int \<Rightarrow> int \<Rightarrow> int option" where
  "evaluate_position b x y p = evaluate_position_loop b x y p directions 0"

text \<open>
  \<^verbatim>\<open>evaluate_board\<close>: over all occupied cells, the position score is added for a stone of
  \<^verbatim>\<open>self.player\<close> and subtracted for any other stone.
\<close>

fun evaluate_board_loop :: "AI \<Rightarrow> Board \<Rightarrow> (int \<times> int) list \<Rightarrow> int \<Rightarrow> int option" where
  "evaluate_board_loop ai b [] score = Some score"
| "evaluate_board_loop ai b ((x, y) # cs) score =
     (if cell b x y \<noteq> 0 then
        do {
          let p = cell b x y;
          position_score \<leftarrow> evaluate_position b x y p;
          if p = player ai then evaluate_board_loop ai b cs (score + position_score)
          else evaluate_board_loop ai b cs (score - position_score)
        }
      else evaluate_board_loop ai b cs score)"

definition evaluate_board :: "AI \<Rightarrow> Board \<Rightarrow> int option" where
  "evaluate_board ai b = evaluate_board_loop ai b (all_cells b) 0"

text \<open>
  \<^verbatim>\<open>is_game_over\<close>: the board is full, or \<^verbatim>\<open>check_win\<close> holds at some occupied cell for the
  stone on it.
\<close>

fun is_game_over_loop :: "Board \<Rightarrow> (int \<times> int) list \<Rightarrow> bool option" where
  "is_game_over_loop b [] = Some False"
| "is_game_over_loop b ((x, y) # cs) =
     (if cell b x y \<noteq> 0 then
        do {
          won \<leftarrow> check_win b x y (cell b x y);
          if won then Some True else is_game_over_loop b cs
        }
      else is_game_over_loop b cs)"

definition is_game_over :: "Board \<Rightarrow> bool option" where
  "is_game_over b = (if is_full b then Some True else is_game_over_loop b (all_cells b))"

text \<open>
  \<^verbatim>\<open>minimax(board, depth, is_maximizing, alpha, beta)\<close>. The source mutates the board:
  it places a stone, recurses, and writes 0 back. The model threads the board through,
  so each function returns the score together with the board it leaves behind.
  \<open>max_loop\<close> and \<open>min_loop\<close> are the two \<^verbatim>\<open>for move in valid_moves\<close> loops with their
  \<^verbatim>\<open>break\<close>; their argument \<open>d1\<close> is the \<^verbatim>\<open>depth - 1\<close> of the recursive call, which does not
  change during the loop. The depth is a natural number: the callers in the source pass
  0, 1 and 2 and every recursive call passes one less than a depth that is not 0.
\<close>

function minimax :: "AI \<Rightarrow> Board \<Rightarrow> nat \<Rightarrow> bool \<Rightarrow> score \<Rightarrow> score \<Rightarrow> (score \<times> Board) option"
  and max_loop :: "AI \<Rightarrow> Board \<Rightarrow> nat \<Rightarrow> (int \<times> int) list \<Rightarrow> score \<Rightarrow> score \<Rightarrow> score \<Rightarrow> (score \<times> Board) option"
  and min_loop :: "AI \<Rightarrow> Board \<Rightarrow> nat \<Rightarrow> (int \<times> int) list \<Rightarrow> score \<Rightarrow> score \<Rightarrow> score \<Rightarrow> (score \<times> Board) option"
where
  "minimax ai b d is_maximizing alpha beta =
     do {
       stop \<leftarrow> (if d = 0 then Some True else is_game_over b);
       if stop then do { v \<leftarrow> evaluate_board ai b; Some (Fin v, b) }
       else if is_maximizing then max_loop ai b (d - 1) (get_valid_moves b) NegInf alpha beta
       else min_loop ai b (d - 1) (get_valid_moves b) PosInf alpha beta
     }"
| "max_loop ai b d1 [] max_score alpha beta = Some (max_score, b)"
| "max_loop ai b d1 ((x, y) # ms) max_score alpha beta =
     do {
       (score, b2) \<leftarrow> minimax ai (snd (place_stone b x y (player ai))) d1 False alpha beta;
       let b3 = set_cell b2 x y 0;
       let max_score' = max max_score score;
       let alpha' = max alpha score;
       if beta \<le> alpha' then Some (max_score', b3)
       else max_loop ai b3 d1 ms max_score' alpha' beta
     }"
| "min_loop ai b d1 [] min_score alpha beta = Some (min_score, b)"
| "min_loop ai b d1 ((x, y) # ms) min_score alpha beta =
     do {
       (score, b2) \<leftarrow> minimax ai (snd (place_stone b x y (opponent ai))) d1 True alpha beta;
       let b3 = set_cell b2 x y 0;
       let min_score' = min min_score score;
       let beta' = min beta score;
       if beta' \<le> alpha then Some (min_score', b3)
       else min_loop ai b3 d1 ms min_score' alpha beta'
     }"
  by pat_completeness auto
termination
  apply (relation "measures [
     (\<lambda>a. case a of Inl (ai, b, d, m, al, be) \<Rightarrow> d | Inr (Inl (ai, b, d1, ms, s, al, be)) \<Rightarrow> d1 | Inr (Inr (ai, b, d1, ms, s, al, be)) \<Rightarrow> d1),
     (\<lambda>a. case a of Inl _ \<Rightarrow> 0 | Inr _ \<Rightarrow> 1),
     (\<lambda>a. case a of Inl _ \<Rightarrow> 0 | Inr (Inl (ai, b, d1, ms, s, al, be)) \<Rightarrow> length ms | Inr (Inr (ai, b, d1, ms, s, al, be)) \<Rightarrow> length ms)]")
  apply (auto split: if_splits)
  done

text \<open>The loops of the Easy tier: place a stone of \<open>p\<close>, ask \<^verbatim>\<open>check_win\<close>, take the stone back.\<close>

fun easy_loop :: "Board \<Rightarrow> (int \<times> int) list \<Rightarrow> int \<Rightarrow> ((int \<times> int) option \<times> Board) option" where
  "easy_loop b [] p = Some (None, b)"
| "easy_loop b ((x, y) # ms) p =
     do {
       let b1 = snd (place_stone b x y p);
       won \<leftarrow> check_win b1 x y p;
       if won then Some (Some (x, y), set_cell b1 x y 0)
       else easy_loop (set_cell b1 x y 0) ms p
     }"

text \<open>
  \<^verbatim>\<open>random.choice(seq)\<close> returns \<^verbatim>\<open>seq[i]\<close> for an index \<open>i\<close> drawn below \<^verbatim>\<open>len(seq)\<close> and raises
  IndexError on an empty sequence. The draw is an input \<open>rnd\<close> of the model; \<open>None\<close> is
  "does not return a value".
\<close>

definition random_choice :: "nat \<Rightarrow> 'a list \<Rightarrow> 'a option" where
  "random_choice rnd xs = (if xs = [] then None else Some (xs ! (rnd mod length xs)))"

text \<open>
  The loop of \<^verbatim>\<open>_minimax_move\<close>; \<open>d1\<close> is the \<^verbatim>\<open>depth - 1\<close> it passes to \<^verbatim>\<open>minimax\<close>.
  \<^verbatim>\<open>get_best_move\<close> calls \<^verbatim>\<open>_minimax_move\<close> with the depths 1, 3 and 2; a depth 0 (where
  Python would pass -1 on) is outside the model.
\<close>

fun minimax_move_loop ::
  "AI \<Rightarrow> Board \<Rightarrow> nat \<Rightarrow> (int \<times> int) list \<Rightarrow> score \<Rightarrow> (int \<times> int) option \<Rightarrow> ((int \<times> int) option \<times> Board) option" where
  "minimax_move_loop ai b d1 [] best_score best_move = Some (best_move, b)"
| "minimax_move_loop ai b d1 ((x, y) # ms) best_score best_move =
     do {
       (score, b2) \<leftarrow> minimax ai (snd (place_stone b x y (player ai))) d1 False NegInf PosInf;
       let b3 = set_cell b2 x y 0;
       if score > best_score then minimax_move_loop ai b3 d1 ms score (Some (x, y))
       else minimax_move_loop ai b3 d1 ms best_score best_move
     }"

definition minimax_move :: "AI \<Rightarrow> Board \<Rightarrow> nat \<Rightarrow> ((int \<times> int) option \<times> Board) option" where
  "minimax_move ai b d =
     (let valid_moves = get_valid_moves b in
      if valid_moves = [] then Some (None, b)
      else minimax_move_loop ai b (d - 1) valid_moves NegInf None)"

text \<open>
  \<^verbatim>\<open>get_best_move\<close> returns the move (or \<^verbatim>\<open>None\<close>) and leaves the board it was given in
  some state: the model returns both.
\<close>

definition get_best_move :: "AI \<Rightarrow> Board \<Rightarrow> nat \<Rightarrow> ((int \<times> int) option \<times> Board) option" where
  "get_best_move ai b rnd =
     (let valid_moves = get_valid_moves b in
      if valid_moves = [] then Some (None, b)
      else if difficulty ai = ''Easy'' then
        do {
          (found, b1) \<leftarrow> easy_loop b valid_moves (player ai);
          if found \<noteq> None then Some (found, b1)
          else do {
            (found, b2) \<leftarrow> easy_loop b1 valid_moves (opponent ai);
            if found \<noteq> None then Some (found, b2)
            else do { m \<leftarrow> random_choice rnd valid_moves; Some (Some m, b2) }
          }
        }
      else if difficulty ai = ''Normal'' then minimax_move ai b 1
      else if difficulty ai = ''Hard'' then minimax_move ai b 3
      else minimax_move ai b 2)"

section \<open>Definitions for stating the claims\<close>

text \<open>A cell of the board that holds the value \<open>p\<close>.\<close>

definition holds :: "Board \<Rightarrow> int \<Rightarrow> int \<Rightarrow> int \<Rightarrow> bool" where
  "holds b x y p = (in_range b x y \<and> cell b x y = p)"


text \<open>
  A legal move after which \<^verbatim>\<open>check_win\<close> holds for the stone \<open>p\<close> placed on it.
\<close>

definition wins_if_placed :: "Board \<Rightarrow> int \<Rightarrow> int \<times> int \<Rightarrow> bool" where
  "wins_if_placed b p m = (check_win (snd (place_stone b (fst m) (snd m) p)) (fst m) (snd m) p = Some True)"

text \<open>
  Exhaustive minimax over the same game tree: the same stop test, the same static
  evaluation and the same moves, no window and no pruning. The board is not threaded:
  each child is the board with the stone placed.
\<close>

primrec maxs :: "score list \<Rightarrow> score" where
  "maxs [] = NegInf"
| "maxs (s # ss) = max s (maxs ss)"

primrec mins :: "score list \<Rightarrow> score" where
  "mins [] = PosInf"
| "mins (s # ss) = min s (mins ss)"

function exhaustive :: "AI \<Rightarrow> Board \<Rightarrow> nat \<Rightarrow> bool \<Rightarrow> score option" where
  "exhaustive ai b d is_maximizing =
     do {
       stop \<leftarrow> (if d = 0 then Some True else is_game_over b);
       if stop then do { v \<leftarrow> evaluate_board ai b; Some (Fin v) }
       else if is_maximizing then
         do {
           scores \<leftarrow> those (map (\<lambda>(x, y). exhaustive ai (snd (place_stone b x y (player ai))) (d - 1) False)
                               (get_valid_moves b));
           Some (maxs scores)
         }
       else
         do {
           scores \<leftarrow> those (map (\<lambda>(x, y). exhaustive ai (snd (place_stone b x y (opponent ai))) (d - 1) True)
                               (get_valid_moves b));
           Some (mins scores)
         }
     }"
  by pat_completeness auto
termination
  by (relation "measure (\<lambda>(ai, b, d, m). d)") (auto split: if_splits)

declare exhaustive.simps [simp del]

text \<open>
  The first move, in the order of the list, whose score is maximal; and the move that
  exhaustive minimax selects at the outermost ply with it.
\<close>

definition pick_first_max :: "'a list \<Rightarrow> score list \<Rightarrow> 'a option" where
  "pick_first_max ms scores =
     map_option fst (find (\<lambda>(m, s). \<forall>s' \<in> set scores. s' \<le> s) (zip ms scores))"

definition exhaustive_move :: "AI \<Rightarrow> Board \<Rightarrow> nat \<Rightarrow> (int \<times> int) option option" where
  "exhaustive_move ai b d =
     do {
       scores \<leftarrow> those (map (\<lambda>(x, y). exhaustive ai (snd (place_stone b x y (player ai))) (d - 1) False)
                           (get_valid_moves b));
       Some (pick_first_max (get_valid_moves b) scores)
     }"

text \<open>
  The score that \<^verbatim>\<open>_minimax_move\<close> computes for a candidate move, the depth that
  \<^verbatim>\<open>get_best_move\<close> passes for a difficulty other than Easy, and the row-major order of
  coordinates (increasing \<open>y\<close>, then increasing \<open>x\<close>).
\<close>

definition move_score :: "AI \<Rightarrow> Board \<Rightarrow> nat \<Rightarrow> int \<times> int \<Rightarrow> score option" where
  "move_score ai b d1 m =
     map_option fst (minimax ai (snd (place_stone b (fst m) (snd m) (player ai))) d1 False NegInf PosInf)"

definition search_depth :: "AI \<Rightarrow> nat" where
  "search_depth ai = (if difficulty ai = ''Normal'' then 1 else if difficulty ai = ''Hard'' then 3 else 2)"

definition row_major :: "int \<times> int \<Rightarrow> int \<times> int \<Rightarrow> bool" where
  "row_major m m' = (snd m < snd m' \<or> (snd m = snd m' \<and> fst m < fst m'))"


definition five_in_row :: Board where
  "five_in_row = fold (\<lambda>i b. snd (place_stone b i 7 1)) [0, 1, 2, 3, 4] (Board_init 15)"


definition full_board :: Board where
  "full_board = \<lparr> size_b = 2, board = [[1, 2], [2, 1]] \<rparr>"

definition open_four :: "int \<Rightarrow> Board" where
  "open_four p = fold (\<lambda>i b. snd (place_stone b i 2 p)) [0, 1, 2, 3] (Board_init 5)"

section \<open>Auxiliary definitions of the proofs\<close>

text \<open>
  An upper bound on the number of steps that a walk in direction \<open>(dx, dy)\<close> can still
  make inside the board.
\<close>

definition exit_dist :: "Board \<Rightarrow> int \<Rightarrow> int \<Rightarrow> int \<Rightarrow> int \<Rightarrow> nat" where
  "exit_dist b dx dy nx ny =
     (if dx > 0 then nat (int (size_b b) - nx) else if dx < 0 then nat (nx + 1)
      else if dy > 0 then nat (int (size_b b) - ny) else nat (ny + 1))"

text \<open>
  \<^verbatim>\<open>is_game_over\<close> and \<^verbatim>\<open>evaluate_board\<close> always return (\<open>is_game_over_terminal\<close> and
  \<open>evaluate_board_static\<close> below); these are their values.
\<close>

definition terminal :: "Board \<Rightarrow> bool" where
  "terminal b = the (is_game_over b)"

definition static :: "AI \<Rightarrow> Board \<Rightarrow> int" where
  "static ai b = the (evaluate_board ai b)"

text \<open>Moves that are legal on a board, and the values of the exhaustive search.\<close>

definition valid_in :: "Board \<Rightarrow> (int \<times> int) list \<Rightarrow> bool" where
  "valid_in b ms = (\<forall>m \<in> set ms. is_valid_move b (fst m) (snd m))"

fun full :: "AI \<Rightarrow> Board \<Rightarrow> nat \<Rightarrow> bool \<Rightarrow> score" where
  "full ai b d is_maximizing =
     (if d = 0 \<or> terminal b then Fin (static ai b)
      else if is_maximizing then
        maxs (map (\<lambda>(x, y). full ai (snd (place_stone b x y (player ai))) (d - 1) False) (get_valid_moves b))
      else
        mins (map (\<lambda>(x, y). full ai (snd (place_stone b x y (opponent ai))) (d - 1) True) (get_valid_moves b)))"

declare full.simps [simp del]

text \<open>
  What a search with the window \<open>(alpha, beta)\<close> guarantees about its result \<open>s\<close> and the
  exhaustive value \<open>v\<close>: a result below \<open>beta\<close> is an upper bound of the value, a result above
  \<open>alpha\<close> a lower bound.
\<close>

definition approximates :: "score \<Rightarrow> score \<Rightarrow> score \<Rightarrow> score \<Rightarrow> bool" where
  "approximates alpha beta v s = ((s < beta \<longrightarrow> v \<le> s) \<and> (alpha < s \<longrightarrow> s \<le> v))"

text \<open>The best-move bookkeeping of \<^verbatim>\<open>_minimax_move\<close> over a list of scored moves.\<close>

fun best_loop :: "('a \<times> score) list \<Rightarrow> score \<Rightarrow> 'a option \<Rightarrow> 'a option" where
  "best_loop [] best_score best_move = best_move"
| "best_loop ((m, s) # xs) best_score best_move =
     (if s > best_score then best_loop xs s (Some m) else best_loop xs best_score best_move)"

declare minimax.simps [simp del]

section \<open>Facts about the board\<close>

lemma in_range_nat: "in_range b x y \<Longrightarrow> nat x < size_b b \<and> nat y < size_b b"
  unfolding in_range_def by linarith

lemma row_length: "board_wf b \<Longrightarrow> in_range b x y \<Longrightarrow> length (board b ! nat y) = size_b b"
  using in_range_nat [of b x y] by (simp add: board_wf_def list_all_length)

lemma cell_set_cell_same:
  assumes "board_wf b" and "in_range b x y"
  shows "cell (set_cell b x y v) x y = v"
proof -
  have "nat y < length (board b)" and "nat x < length (board b ! nat y)"
    using assms row_length [OF assms] in_range_nat [of b x y] by (simp_all add: board_wf_def)
  then show ?thesis
    by (simp add: cell_def set_cell_def)
qed

lemma cell_set_cell_other:
  assumes "board_wf b" and "in_range b x y" and "in_range b x' y'" and "(x', y') \<noteq> (x, y)"
  shows "cell (set_cell b x y v) x' y' = cell b x' y'"
proof (cases "y' = y")
  case True
  then have "nat x' \<noteq> nat x" and "nat y < length (board b)"
    using assms by (auto simp: in_range_def board_wf_def)
  then show ?thesis
    using True by (simp add: cell_def set_cell_def)
next
  case False
  then have "nat y' \<noteq> nat y"
    using assms by (auto simp: in_range_def)
  then show ?thesis
    by (simp add: cell_def set_cell_def)
qed

lemma size_b_set_cell [simp]: "size_b (set_cell b x y v) = size_b b"
  by (simp add: set_cell_def)

lemma in_range_set_cell [simp]: "in_range (set_cell b x y v) x' y' = in_range b x' y'"
  by (simp add: in_range_def)

lemma board_wf_set_cell:
  assumes "board_wf b"
  shows "board_wf (set_cell b x y v)"
proof -
  have len: "length (board b) = size_b b" and rows: "\<forall>n<size_b b. length (board b ! n) = size_b b"
    using assms by (simp_all add: board_wf_def list_all_length)
  have "length ((board b)[nat y := (board b ! nat y)[nat x := v]] ! n) = size_b b"
    if "n < size_b b" for n
    using that len rows by (cases "n = nat y") simp_all
  then show ?thesis
    using len by (simp add: board_wf_def set_cell_def list_all_length)
qed

lemma board_wf_Board_init: "board_wf (Board_init n)"
  by (simp add: board_wf_def Board_init_def list_all_iff)

lemma is_valid_move_iff: "is_valid_move b x y = (in_range b x y \<and> cell b x y = 0)"
  by (auto simp: is_valid_move_def in_range_def)

lemma set_py_range: "set (py_range n) = {i. 0 \<le> i \<and> i < int n}"
proof -
  have "i \<in> int ` {0..<n}" if "0 \<le> i" "i < int n" for i
    using that by (intro image_eqI [of _ _ "nat i"]) simp_all
  then show ?thesis
    by (auto simp: py_range_def)
qed

lemma set_get_valid_moves: "set (get_valid_moves b) = {(x, y). is_valid_move b x y}"
  by (auto simp: get_valid_moves_def set_py_range is_valid_move_def)

lemma valid_moves_nonempty:
  assumes "board_wf b" and "\<not> is_full b"
  shows "get_valid_moves b \<noteq> []"
proof -
  from assms(2) obtain row v where row: "row \<in> set (board b)" and v: "v \<in> set row" and "v = 0"
    by (auto simp: is_full_def list_all_iff)
  from row obtain j where j: "j < length (board b)" "row = board b ! j"
    by (auto simp: in_set_conv_nth)
  from v obtain i where i: "i < length row" "row ! i = v"
    by (auto simp: in_set_conv_nth)
  from assms(1) j have "length row = size_b b" and "j < size_b b"
    by (simp_all add: board_wf_def list_all_length)
  with i j \<open>v = 0\<close> have "is_valid_move b (int i) (int j)"
    by (simp add: is_valid_move_def cell_def)
  then have "(int i, int j) \<in> set (get_valid_moves b)"
    by (simp add: set_get_valid_moves)
  then show ?thesis by auto
qed

lemma undo_place:
  assumes "is_valid_move b x y"
  shows "set_cell (snd (place_stone b x y p)) x y 0 = b"
proof -
  from assms have zero: "board b ! nat y ! nat x = 0"
    by (simp add: is_valid_move_iff cell_def)
  have "(board b)[nat y := ((board b)[nat y := (board b ! nat y)[nat x := p]] ! nat y)[nat x := 0]] = board b"
  proof (cases "nat y < length (board b)")
    case True
    then have "((board b)[nat y := (board b ! nat y)[nat x := p]] ! nat y)[nat x := 0] = board b ! nat y"
      using zero list_update_id [of "board b ! nat y" "nat x"] by simp
    then show ?thesis by simp
  next
    case False
    then show ?thesis by (simp add: list_update_beyond)
  qed
  with assms show ?thesis
    by (simp add: place_stone_def set_cell_def)
qed

lemma board_wf_place: "board_wf b \<Longrightarrow> board_wf (snd (place_stone b x y p))"
  by (simp add: place_stone_def board_wf_set_cell)

lemma valid_in_Cons [simp]: "valid_in b ((x, y) # ms) = (is_valid_move b x y \<and> valid_in b ms)"
  by (simp add: valid_in_def)

lemma valid_in_get_valid_moves: "valid_in b (get_valid_moves b)"
  by (auto simp: valid_in_def set_get_valid_moves)

lemma get_valid_moves_filter:
  "get_valid_moves b = filter (\<lambda>(x, y). is_valid_move b x y) (all_cells b)"
proof -
  have inner: "concat (map (\<lambda>x. if P x y then [(x, y)] else []) xs)
      = filter (\<lambda>(x, y). P x y) (map (\<lambda>x. (x, y)) xs)" for P :: "int \<Rightarrow> int \<Rightarrow> bool" and y xs
    by (induction xs) simp_all
  show ?thesis
    by (simp add: get_valid_moves_def all_cells_def inner filter_concat comp_def)
qed

lemma sorted_all_cells: "sorted_wrt row_major (all_cells b)"
proof -
  have grid: "sorted_wrt row_major (concat (map (\<lambda>y. map (\<lambda>x. (x, y)) xs) ys))"
    if "sorted_wrt (<) xs" "sorted_wrt (<) ys" for xs ys :: "int list"
    using that(2)
  proof (induction ys)
    case Nil
    show ?case by simp
  next
    case (Cons y ys)
    have "sorted_wrt row_major (map (\<lambda>x. (x, y)) xs)"
      using that(1) by (simp add: sorted_wrt_map row_major_def)
    moreover have "\<forall>a \<in> set (map (\<lambda>x. (x, y)) xs).
        \<forall>c \<in> set (concat (map (\<lambda>y. map (\<lambda>x. (x, y)) xs) ys)). row_major a c"
      using Cons.prems by (auto simp: row_major_def)
    moreover have "sorted_wrt row_major (concat (map (\<lambda>y. map (\<lambda>x. (x, y)) xs) ys))"
      using Cons by simp
    ultimately show ?case
      by (simp add: sorted_wrt_append)
  qed
  have "sorted_wrt (<) (py_range n)" for n
    by (simp add: py_range_def sorted_wrt_map)
  then show ?thesis
    unfolding all_cells_def by (intro grid)
qed

lemma sorted_get_valid_moves: "sorted_wrt row_major (get_valid_moves b)"
  unfolding get_valid_moves_filter by (intro sorted_wrt_filter sorted_all_cells)

section \<open>Counting along a line\<close>

lemma exit_dist_step:
  assumes "in_range b nx ny" and "dx \<noteq> 0 \<or> dy \<noteq> 0"
  shows "exit_dist b dx dy (nx + dx) (ny + dy) < exit_dist b dx dy nx ny"
  using assms unfolding exit_dist_def in_range_def by auto

lemma count_direction_loop_returns:
  assumes "dx \<noteq> 0 \<or> dy \<noteq> 0"
  shows "\<exists>n\<ge>0. count_direction_loop b nx ny dx dy p c = Some (c + n)
            \<and> (\<forall>i. 0 \<le> i \<and> i < n \<longrightarrow> holds b (nx + i * dx) (ny + i * dy) p)
            \<and> \<not> holds b (nx + n * dx) (ny + n * dy) p"
proof (induction "exit_dist b dx dy nx ny" arbitrary: nx ny c rule: less_induct)
  case less
  show ?case
  proof (cases "holds b nx ny p")
    case False
    then have "count_direction_loop b nx ny dx dy p c = Some c"
      by (subst count_direction_loop.simps) (auto simp: holds_def in_range_def)
    with False show ?thesis
      by (intro exI [of _ 0]) auto
  next
    case True
    then have unfold: "count_direction_loop b nx ny dx dy p c =
        count_direction_loop b (nx + dx) (ny + dy) dx dy p (c + 1)"
      by (subst count_direction_loop.simps) (auto simp: holds_def in_range_def)
    from True have "in_range b nx ny"
      by (simp add: holds_def)
    then have "exit_dist b dx dy (nx + dx) (ny + dy) < exit_dist b dx dy nx ny"
      using assms by (rule exit_dist_step)
    from less [OF this, of "c + 1"] obtain n where n: "0 \<le> n"
      and ret: "count_direction_loop b (nx + dx) (ny + dy) dx dy p (c + 1) = Some (c + 1 + n)"
      and run: "\<forall>i. 0 \<le> i \<and> i < n \<longrightarrow> holds b (nx + dx + i * dx) (ny + dy + i * dy) p"
      and stop: "\<not> holds b (nx + dx + n * dx) (ny + dy + n * dy) p"
      by blast
    have "holds b (nx + i * dx) (ny + i * dy) p" if "0 \<le> i" "i < n + 1" for i
    proof (cases "i = 0")
      case True
      with \<open>holds b nx ny p\<close> show ?thesis by simp
    next
      case False
      with that have "0 \<le> i - 1 \<and> i - 1 < n" by simp
      with run have "holds b (nx + dx + (i - 1) * dx) (ny + dy + (i - 1) * dy) p" by blast
      then show ?thesis by (simp add: algebra_simps)
    qed
    moreover have "\<not> holds b (nx + (n + 1) * dx) (ny + (n + 1) * dy) p"
      using stop by (simp add: algebra_simps)
    ultimately show ?thesis
      using n ret unfold by (intro exI [of _ "n + 1"]) (auto simp: algebra_simps)
  qed
qed

lemma count_direction_returns:
  assumes "dx \<noteq> 0 \<or> dy \<noteq> 0"
  shows "\<exists>n\<ge>0. count_direction b x y dx dy p = Some n
            \<and> (\<forall>i. 1 \<le> i \<and> i \<le> n \<longrightarrow> holds b (x + i * dx) (y + i * dy) p)
            \<and> \<not> holds b (x + (n + 1) * dx) (y + (n + 1) * dy) p"
proof -
  from count_direction_loop_returns [OF assms, of b "x + dx" "y + dy" p 0]
  obtain n where n: "0 \<le> n"
    and ret: "count_direction_loop b (x + dx) (y + dy) dx dy p 0 = Some n"
    and run: "\<forall>i. 0 \<le> i \<and> i < n \<longrightarrow> holds b (x + dx + i * dx) (y + dy + i * dy) p"
    and stop: "\<not> holds b (x + dx + n * dx) (y + dy + n * dy) p"
    by auto
  have "holds b (x + i * dx) (y + i * dy) p" if "1 \<le> i" "i \<le> n" for i
  proof -
    from that have "0 \<le> i - 1 \<and> i - 1 < n" by simp
    with run have "holds b (x + dx + (i - 1) * dx) (y + dy + (i - 1) * dy) p" by blast
    then show ?thesis by (simp add: algebra_simps)
  qed
  moreover have "\<not> holds b (x + (n + 1) * dx) (y + (n + 1) * dy) p"
    using stop by (simp add: algebra_simps)
  ultimately show ?thesis
    using n ret by (intro exI [of _ n]) (simp add: count_direction_def)
qed




lemma check_win_total: "\<exists>w. check_win b x y p = Some w"
proof -
  have "\<exists>w. check_win_loop b x y p ds = Some w" if "\<forall>(dx, dy) \<in> set ds. dx \<noteq> 0 \<or> dy \<noteq> 0" for ds
    using that
  proof (induction ds)
    case Nil
    show ?case by auto
  next
    case (Cons d ds)
    obtain dx dy where d: "d = (dx, dy)" by (cases d)
    with Cons.prems have dir: "dx \<noteq> 0 \<or> dy \<noteq> 0" and "- dx \<noteq> 0 \<or> - dy \<noteq> 0" by simp_all
    from count_direction_returns [OF this(1), of b x y p] count_direction_returns [OF this(2), of b x y p]
    obtain f r where "count_direction b x y dx dy p = Some f"
      and "count_direction b x y (- dx) (- dy) p = Some r"
      by blast
    moreover from Cons obtain w where "check_win_loop b x y p ds = Some w" by auto
    ultimately show ?case using d by auto
  qed
  from this [of directions] show ?thesis
    by (simp add: check_win_def directions_def)
qed







section \<open>Evaluation and the end of the game always return\<close>

lemma scan_loop_total:
  assumes "dx \<noteq> 0 \<or> dy \<noteq> 0"
  shows "\<exists>r. scan_loop b nx ny dx dy p c bl = Some r"
proof (induction "exit_dist b dx dy nx ny" arbitrary: nx ny c rule: less_induct)
  case less
  show ?case
  proof (cases "holds b nx ny p")
    case False
    then show ?thesis
      by (subst scan_loop.simps) (auto simp: holds_def in_range_def)
  next
    case True
    then have "scan_loop b nx ny dx dy p c bl = scan_loop b (nx + dx) (ny + dy) dx dy p (c + 1) bl"
      by (subst scan_loop.simps) (auto simp: holds_def in_range_def)
    moreover from True have "exit_dist b dx dy (nx + dx) (ny + dy) < exit_dist b dx dy nx ny"
      using assms by (intro exit_dist_step) (simp add: holds_def)
    ultimately show ?thesis
      using less by simp
  qed
qed

lemma evaluate_position_loop_total:
  assumes "\<forall>(dx, dy) \<in> set ds. dx \<noteq> 0 \<or> dy \<noteq> 0"
  shows "\<exists>v. evaluate_position_loop b x y p ds t = Some v"
  using assms
proof (induction ds arbitrary: t)
  case Nil
  show ?case by auto
next
  case (Cons d ds)
  obtain dx dy where d: "d = (dx, dy)" by (cases d)
  with Cons.prems have dir: "dx \<noteq> 0 \<or> dy \<noteq> 0" and neg: "- dx \<noteq> 0 \<or> - dy \<noteq> 0" by simp_all
  from scan_loop_total [OF dir] obtain c1 b1
    where s1: "scan_loop b (x + dx) (y + dy) dx dy p 1 0 = Some (c1, b1)" by fastforce
  from scan_loop_total [OF neg] obtain c2 b2
    where s2: "scan_loop b (x - dx) (y - dy) (- dx) (- dy) p c1 b1 = Some (c2, b2)" by fastforce
  from Cons obtain v
    where "evaluate_position_loop b x y p ds (t + calculate_line_score c2 b2) = Some v" by fastforce
  with s1 s2 d show ?case by simp
qed

lemma evaluate_position_total: "\<exists>v. evaluate_position b x y p = Some v"
  unfolding evaluate_position_def
  by (rule evaluate_position_loop_total) (simp add: directions_def)

lemma evaluate_board_loop_total: "\<exists>v. evaluate_board_loop ai b cs s = Some v"
proof (induction cs arbitrary: s)
  case Nil
  show ?case by auto
next
  case (Cons c cs)
  obtain x y where c: "c = (x, y)" by (cases c)
  obtain v where v: "evaluate_position b x y (cell b x y) = Some v"
    using evaluate_position_total by blast
  show ?case
    using Cons [of "s + v"] Cons [of "s - v"] Cons [of s] c v by (simp add: Let_def)
qed

lemma evaluate_board_static: "evaluate_board ai b = Some (static ai b)"
  using evaluate_board_loop_total [of ai b "all_cells b" 0]
  by (auto simp: static_def evaluate_board_def)

lemma is_game_over_loop_total: "\<exists>v. is_game_over_loop b cs = Some v"
proof (induction cs)
  case Nil
  show ?case by auto
next
  case (Cons c cs)
  obtain x y where c: "c = (x, y)" by (cases c)
  obtain w where w: "check_win b x y (cell b x y) = Some w"
    using check_win_total by blast
  show ?case
    using Cons c w by auto
qed

lemma is_game_over_terminal: "is_game_over b = Some (terminal b)"
  using is_game_over_loop_total [of b "all_cells b"]
  by (auto simp: terminal_def is_game_over_def)

lemma terminal_full: "is_full b \<Longrightarrow> terminal b"
  by (simp add: terminal_def is_game_over_def)

section \<open>The search returns and restores the board\<close>

lemma max_Fin: "s0 \<noteq> PosInf \<Longrightarrow> \<exists>w. max s0 (Fin v) = Fin w"
  by (cases s0) (simp_all add: max_def)

lemma min_Fin: "s0 \<noteq> NegInf \<Longrightarrow> \<exists>w. min s0 (Fin v) = Fin w"
  by (cases s0) (simp_all add: min_def)

lemma minimax_returns:
  "board_wf b \<Longrightarrow> \<exists>v. minimax ai b d mx alpha beta = Some (Fin v, b)"
  "board_wf b \<Longrightarrow> valid_in b ms \<Longrightarrow>
     \<exists>s. max_loop ai b d1 ms s0 alpha beta = Some (s, b)
        \<and> (ms = [] \<longrightarrow> s = s0) \<and> (ms \<noteq> [] \<longrightarrow> s0 \<noteq> PosInf \<longrightarrow> (\<exists>v. s = Fin v))"
  "board_wf b \<Longrightarrow> valid_in b ms \<Longrightarrow>
     \<exists>s. min_loop ai b d1 ms s0 alpha beta = Some (s, b)
        \<and> (ms = [] \<longrightarrow> s = s0) \<and> (ms \<noteq> [] \<longrightarrow> s0 \<noteq> NegInf \<longrightarrow> (\<exists>v. s = Fin v))"
proof (induction ai b d mx alpha beta and ai b d1 ms s0 alpha beta and ai b d1 ms s0 alpha beta
    rule: minimax_max_loop_min_loop.induct)
  case (1 ai b d is_maximizing alpha beta)
  show ?case
  proof (cases "d = 0 \<or> terminal b")
    case True
    then show ?thesis
      by (subst minimax.simps) (auto simp: is_game_over_terminal evaluate_board_static)
  next
    case False
    then have stop: "(if d = 0 then Some True else is_game_over b) = Some False"
      by (simp add: is_game_over_terminal)
    from False have "\<not> is_full b"
      using terminal_full by blast
    with \<open>board_wf b\<close> have ne: "get_valid_moves b \<noteq> []"
      by (rule valid_moves_nonempty)
    show ?thesis
    proof (cases is_maximizing)
      case True
      from "1.IH"(1) [OF stop _ True \<open>board_wf b\<close> valid_in_get_valid_moves] ne
      obtain v where "max_loop ai b (d - 1) (get_valid_moves b) NegInf alpha beta = Some (Fin v, b)"
        by auto
      with stop True show ?thesis
        by (subst minimax.simps) simp
    next
      case False
      from "1.IH"(2) [OF stop _ False \<open>board_wf b\<close> valid_in_get_valid_moves] ne
      obtain v where "min_loop ai b (d - 1) (get_valid_moves b) PosInf alpha beta = Some (Fin v, b)"
        by auto
      with stop False show ?thesis
        by (subst minimax.simps) simp
    qed
  qed
next
  case (2 ai b d1 max_score alpha beta)
  show ?case by simp
next
  case (3 ai b d1 x y ms max_score alpha beta)
  let ?b1 = "snd (place_stone b x y (player ai))"
  from "3.prems" have valid: "is_valid_move b x y" and rest: "valid_in b ms"
    by simp_all
  from "3.prems"(1) have "board_wf ?b1"
    by (rule board_wf_place)
  from "3.IH"(1) [OF this] obtain v
    where call: "minimax ai ?b1 d1 False alpha beta = Some (Fin v, ?b1)" by blast
  have undo: "set_cell ?b1 x y 0 = b"
    using valid by (rule undo_place)
  show ?case
  proof (cases "beta \<le> max alpha (Fin v)")
    case True
    then show ?thesis
      using call undo max_Fin [of max_score v] by (auto simp: Let_def)
  next
    case False
    from "3.IH"(2) [OF call refl refl refl refl False] undo "3.prems"(1) rest
    obtain s where loop: "max_loop ai b d1 ms (max max_score (Fin v)) (max alpha (Fin v)) beta = Some (s, b)"
      and nil: "ms = [] \<longrightarrow> s = max max_score (Fin v)"
      and fin: "ms \<noteq> [] \<longrightarrow> max max_score (Fin v) \<noteq> PosInf \<longrightarrow> (\<exists>w. s = Fin w)"
      by auto
    have "max_score \<noteq> PosInf \<longrightarrow> (\<exists>w. s = Fin w)"
      using nil fin max_Fin [of max_score v] by (cases "ms = []") auto
    with False call undo loop show ?thesis
      by (simp add: Let_def)
  qed
next
  case (4 ai b d1 min_score alpha beta)
  show ?case by simp
next
  case (5 ai b d1 x y ms min_score alpha beta)
  let ?b1 = "snd (place_stone b x y (opponent ai))"
  from "5.prems" have valid: "is_valid_move b x y" and rest: "valid_in b ms"
    by simp_all
  from "5.prems"(1) have "board_wf ?b1"
    by (rule board_wf_place)
  from "5.IH"(1) [OF this] obtain v
    where call: "minimax ai ?b1 d1 True alpha beta = Some (Fin v, ?b1)" by blast
  have undo: "set_cell ?b1 x y 0 = b"
    using valid by (rule undo_place)
  show ?case
  proof (cases "min beta (Fin v) \<le> alpha")
    case True
    then show ?thesis
      using call undo min_Fin [of min_score v] by (auto simp: Let_def)
  next
    case False
    from "5.IH"(2) [OF call refl refl refl refl False] undo "5.prems"(1) rest
    obtain s where loop: "min_loop ai b d1 ms (min min_score (Fin v)) alpha (min beta (Fin v)) = Some (s, b)"
      and nil: "ms = [] \<longrightarrow> s = min min_score (Fin v)"
      and fin: "ms \<noteq> [] \<longrightarrow> min min_score (Fin v) \<noteq> NegInf \<longrightarrow> (\<exists>w. s = Fin w)"
      by auto
    have "min_score \<noteq> NegInf \<longrightarrow> (\<exists>w. s = Fin w)"
      using nil fin min_Fin [of min_score v] by (cases "ms = []") auto
    with False call undo loop show ?thesis
      by (simp add: Let_def)
  qed
qed

lemma easy_loop_find:
  assumes "valid_in b ms"
  shows "easy_loop b ms p = Some (find (wins_if_placed b p) ms, b)"
  using assms
proof (induction ms)
  case Nil
  show ?case by simp
next
  case (Cons m ms)
  obtain x y where m: "m = (x, y)" by (cases m)
  with Cons.prems have valid: "is_valid_move b x y" and rest: "valid_in b ms"
    by simp_all
  obtain w where w: "check_win (snd (place_stone b x y p)) x y p = Some w"
    using check_win_total by blast
  have undo: "set_cell (snd (place_stone b x y p)) x y 0 = b"
    using valid by (rule undo_place)
  show ?case
    using Cons.IH [OF rest] m w undo by (cases w) (simp_all add: wins_if_placed_def)
qed

section \<open>Pruning does not change the value\<close>

lemma approx_max_cut:
  assumes "s0 \<le> alpha" "alpha < beta" "approximates alpha beta v r" "beta \<le> max alpha r"
  shows "approximates alpha beta (max s0 (max v rest)) (max s0 r)"
  using assms unfolding approximates_def
  by (auto simp: le_max_iff_disj less_max_iff_disj)

lemma approx_max_step:
  assumes "s0 \<le> alpha" "approximates alpha beta v r" "\<not> beta \<le> max alpha r"
    and "approximates (max alpha r) beta (max (max s0 r) rest) s"
  shows "approximates alpha beta (max s0 (max v rest)) s"
  using assms unfolding approximates_def
  by (auto simp: le_max_iff_disj less_max_iff_disj)

lemma approx_min_cut:
  assumes "beta \<le> s0" "alpha < beta" "approximates alpha beta v r" "min beta r \<le> alpha"
  shows "approximates alpha beta (min s0 (min v rest)) (min s0 r)"
  using assms unfolding approximates_def
  by (auto simp: min_le_iff_disj min_less_iff_disj)

lemma approx_min_step:
  assumes "beta \<le> s0" "approximates alpha beta v r" "\<not> min beta r \<le> alpha"
    and "approximates alpha (min beta r) (min (min s0 r) rest) s"
  shows "approximates alpha beta (min s0 (min v rest)) s"
  using assms unfolding approximates_def
  by (auto simp: min_le_iff_disj min_less_iff_disj)

lemma approximates_refl: "approximates alpha beta v v"
  by (simp add: approximates_def)

lemma NegInf_least [simp]: "NegInf \<le> s"
  by simp

lemma PosInf_greatest [simp]: "s \<le> PosInf"
  by (cases s) simp_all

lemma max_NegInf [simp]: "max NegInf s = s"
  by (simp add: max_def)

lemma min_PosInf [simp]: "min PosInf s = s"
  by (simp add: min_def antisym)

lemma approximates_full_window: "approximates NegInf PosInf v (Fin r) \<Longrightarrow> v = Fin r"
  by (cases v) (auto simp: approximates_def less_score_def)

lemma those_map_Some: "those (map (\<lambda>m. Some (f m)) ms) = Some (map f ms)"
  by (induction ms) simp_all

lemma exhaustive_full: "exhaustive ai b d mx = Some (full ai b d mx)"
proof (induction ai b d mx rule: full.induct)
  case (1 ai b d is_maximizing)
  show ?case
  proof (cases "d = 0 \<or> terminal b")
    case True
    then show ?thesis
      by (subst exhaustive.simps, subst full.simps)
         (auto simp: is_game_over_terminal evaluate_board_static)
  next
    case False
    then have stop: "(if d = 0 then Some True else is_game_over b) = Some False"
      by (simp add: is_game_over_terminal)
    show ?thesis
    proof (cases is_maximizing)
      case True
      have "map (\<lambda>(x, y). exhaustive ai (snd (place_stone b x y (player ai))) (d - 1) False) (get_valid_moves b)
          = map (\<lambda>m. Some ((\<lambda>(x, y). full ai (snd (place_stone b x y (player ai))) (d - 1) False) m)) (get_valid_moves b)"
        using "1.IH"(1) [OF False True] by (intro map_cong refl) auto
      then have "those (map (\<lambda>(x, y). exhaustive ai (snd (place_stone b x y (player ai))) (d - 1) False) (get_valid_moves b))
          = Some (map (\<lambda>(x, y). full ai (snd (place_stone b x y (player ai))) (d - 1) False) (get_valid_moves b))"
        by (simp only: those_map_Some)
      then show ?thesis
        using stop True False
        by (subst exhaustive.simps, subst full.simps) (simp del: One_nat_def)
    next
      case mini: False
      have "map (\<lambda>(x, y). exhaustive ai (snd (place_stone b x y (opponent ai))) (d - 1) True) (get_valid_moves b)
          = map (\<lambda>m. Some ((\<lambda>(x, y). full ai (snd (place_stone b x y (opponent ai))) (d - 1) True) m)) (get_valid_moves b)"
        using "1.IH"(2) [OF False mini] by (intro map_cong refl) auto
      then have "those (map (\<lambda>(x, y). exhaustive ai (snd (place_stone b x y (opponent ai))) (d - 1) True) (get_valid_moves b))
          = Some (map (\<lambda>(x, y). full ai (snd (place_stone b x y (opponent ai))) (d - 1) True) (get_valid_moves b))"
        by (simp only: those_map_Some)
      then show ?thesis
        using stop mini False
        by (subst exhaustive.simps, subst full.simps) (simp del: One_nat_def)
    qed
  qed
qed

lemma minimax_approximates:
  "board_wf b \<Longrightarrow> alpha < beta \<Longrightarrow> minimax ai b d mx alpha beta = Some (s, b') \<Longrightarrow>
     approximates alpha beta (full ai b d mx) s"
  "board_wf b \<Longrightarrow> valid_in b ms \<Longrightarrow> s0 \<le> alpha \<Longrightarrow> alpha < beta \<Longrightarrow>
     max_loop ai b d1 ms s0 alpha beta = Some (s, b') \<Longrightarrow>
     approximates alpha beta
       (max s0 (maxs (map (\<lambda>(x, y). full ai (snd (place_stone b x y (player ai))) d1 False) ms))) s"
  "board_wf b \<Longrightarrow> valid_in b ms \<Longrightarrow> beta \<le> s0 \<Longrightarrow> alpha < beta \<Longrightarrow>
     min_loop ai b d1 ms s0 alpha beta = Some (s, b') \<Longrightarrow>
     approximates alpha beta
       (min s0 (mins (map (\<lambda>(x, y). full ai (snd (place_stone b x y (opponent ai))) d1 True) ms))) s"
proof (induction ai b d mx alpha beta and ai b d1 ms s0 alpha beta and ai b d1 ms s0 alpha beta
    arbitrary: s b' and s b' and s b' rule: minimax_max_loop_min_loop.induct)
  case (1 ai b d is_maximizing alpha beta)
  show ?case
  proof (cases "d = 0 \<or> terminal b")
    case True
    then have "(if d = 0 then Some True else is_game_over b) = Some True"
      by (auto simp: is_game_over_terminal)
    with "1.prems"(3) have "s = Fin (static ai b)"
      by (subst (asm) minimax.simps) (auto simp: evaluate_board_static)
    with True show ?thesis
      by (subst full.simps) (simp add: approximates_refl)
  next
    case False
    then have stop: "(if d = 0 then Some True else is_game_over b) = Some False"
      by (simp add: is_game_over_terminal)
    show ?thesis
    proof (cases is_maximizing)
      case True
      with "1.prems"(3) stop
      have "max_loop ai b (d - 1) (get_valid_moves b) NegInf alpha beta = Some (s, b')"
        by (subst (asm) minimax.simps) simp
      from "1.IH"(1) [OF stop _ True "1.prems"(1) valid_in_get_valid_moves _ "1.prems"(2) this]
      show ?thesis
        using True False by (subst full.simps) simp
    next
      case mini: False
      with "1.prems"(3) stop
      have "min_loop ai b (d - 1) (get_valid_moves b) PosInf alpha beta = Some (s, b')"
        by (subst (asm) minimax.simps) simp
      from "1.IH"(2) [OF stop _ mini "1.prems"(1) valid_in_get_valid_moves _ "1.prems"(2) this]
      show ?thesis
        using mini False by (subst full.simps) simp
    qed
  qed
next
  case (2 ai b d1 max_score alpha beta)
  then show ?case
    by (simp add: approximates_def max_def)
next
  case (3 ai b d1 x y ms max_score alpha beta)
  let ?b1 = "snd (place_stone b x y (player ai))"
  let ?v = "full ai ?b1 d1 False"
  let ?rest = "maxs (map (\<lambda>(x, y). full ai (snd (place_stone b x y (player ai))) d1 False) ms)"
  from "3.prems" have valid: "is_valid_move b x y" and rest: "valid_in b ms"
    by simp_all
  have wf1: "board_wf ?b1"
    using "3.prems"(1) by (rule board_wf_place)
  from minimax_returns(1) [OF wf1] obtain r
    where call: "minimax ai ?b1 d1 False alpha beta = Some (Fin r, ?b1)" by blast
  have child: "approximates alpha beta ?v (Fin r)"
    using wf1 "3.prems"(4) call by (rule "3.IH"(1))
  have undo: "set_cell ?b1 x y 0 = b"
    using valid by (rule undo_place)
  show ?case
  proof (cases "beta \<le> max alpha (Fin r)")
    case True
    with "3.prems"(5) call have "s = max max_score (Fin r)"
      by (simp add: Let_def)
    with approx_max_cut [OF "3.prems"(3,4) child True] show ?thesis
      by simp
  next
    case False
    with "3.prems"(5) call undo
    have loop: "max_loop ai b d1 ms (max max_score (Fin r)) (max alpha (Fin r)) beta = Some (s, b')"
      by (simp add: Let_def)
    have "max max_score (Fin r) \<le> max alpha (Fin r)"
      using "3.prems"(3) by (auto simp: le_max_iff_disj)
    moreover have "max alpha (Fin r) < beta"
      using False by (simp only: not_le)
    ultimately have "approximates (max alpha (Fin r)) beta (max (max max_score (Fin r)) ?rest) s"
      using "3.IH"(2) [OF call refl refl refl refl False, of s b'] undo "3.prems"(1) rest loop
      by simp
    with approx_max_step [OF "3.prems"(3) child False] show ?thesis
      by simp
  qed
next
  case (4 ai b d1 min_score alpha beta)
  then show ?case
    by (simp add: approximates_def min_def)
next
  case (5 ai b d1 x y ms min_score alpha beta)
  let ?b1 = "snd (place_stone b x y (opponent ai))"
  let ?v = "full ai ?b1 d1 True"
  let ?rest = "mins (map (\<lambda>(x, y). full ai (snd (place_stone b x y (opponent ai))) d1 True) ms)"
  from "5.prems" have valid: "is_valid_move b x y" and rest: "valid_in b ms"
    by simp_all
  have wf1: "board_wf ?b1"
    using "5.prems"(1) by (rule board_wf_place)
  from minimax_returns(1) [OF wf1] obtain r
    where call: "minimax ai ?b1 d1 True alpha beta = Some (Fin r, ?b1)" by blast
  have child: "approximates alpha beta ?v (Fin r)"
    using wf1 "5.prems"(4) call by (rule "5.IH"(1))
  have undo: "set_cell ?b1 x y 0 = b"
    using valid by (rule undo_place)
  show ?case
  proof (cases "min beta (Fin r) \<le> alpha")
    case True
    with "5.prems"(5) call have "s = min min_score (Fin r)"
      by (simp add: Let_def)
    with approx_min_cut [OF "5.prems"(3,4) child True] show ?thesis
      by simp
  next
    case False
    with "5.prems"(5) call undo
    have loop: "min_loop ai b d1 ms (min min_score (Fin r)) alpha (min beta (Fin r)) = Some (s, b')"
      by (simp add: Let_def)
    have "min beta (Fin r) \<le> min min_score (Fin r)"
      using "5.prems"(3) by (auto simp: min_le_iff_disj)
    moreover have "alpha < min beta (Fin r)"
      using False by (simp only: not_le)
    ultimately have "approximates alpha (min beta (Fin r)) (min (min min_score (Fin r)) ?rest) s"
      using "5.IH"(2) [OF call refl refl refl refl False, of s b'] undo "5.prems"(1) rest loop
      by simp
    with approx_min_step [OF "5.prems"(3) child False] show ?thesis
      by simp
  qed
qed

lemma minimax_exact:
  assumes "board_wf b"
  shows "minimax ai b d mx NegInf PosInf = Some (full ai b d mx, b)"
proof -
  from minimax_returns(1) [OF assms] obtain r
    where ret: "minimax ai b d mx NegInf PosInf = Some (Fin r, b)" by blast
  have "NegInf < PosInf"
    by (simp add: less_score_def)
  from minimax_approximates(1) [OF assms this ret] have "full ai b d mx = Fin r"
    by (rule approximates_full_window)
  with ret show ?thesis by simp
qed

lemma full_finite:
  assumes "board_wf b"
  shows "\<exists>v. full ai b d mx = Fin v"
  using minimax_returns(1) [OF assms, of ai d mx NegInf PosInf] minimax_exact [OF assms, of ai d mx]
  by auto

section \<open>Move selection\<close>

lemma minimax_move_loop_best:
  assumes "board_wf b" and "valid_in b ms"
  shows "minimax_move_loop ai b d1 ms bs bm =
           Some (best_loop (map (\<lambda>m. (m, full ai (snd (place_stone b (fst m) (snd m) (player ai))) d1 False)) ms) bs bm, b)"
  using assms(2)
proof (induction ms arbitrary: bs bm)
  case Nil
  show ?case by simp
next
  case (Cons m ms)
  obtain x y where m: "m = (x, y)" by (cases m)
  with Cons.prems have valid: "is_valid_move b x y" and rest: "valid_in b ms"
    by simp_all
  let ?b1 = "snd (place_stone b x y (player ai))"
  have "board_wf ?b1"
    using assms(1) by (rule board_wf_place)
  then have call: "minimax ai ?b1 d1 False NegInf PosInf = Some (full ai ?b1 d1 False, ?b1)"
    by (rule minimax_exact)
  have undo: "set_cell ?b1 x y 0 = b"
    using valid by (rule undo_place)
  show ?case
    using Cons.IH [OF rest] m call undo by (simp add: Let_def)
qed

lemma exists_top:
  assumes "xs \<noteq> []"
  shows "\<exists>a \<in> set xs. \<forall>t \<in> snd ` set xs. t \<le> snd (a :: 'a \<times> score)"
proof -
  from assms have "Max (snd ` set xs) \<in> snd ` set xs"
    by (intro Max_in) simp_all
  then obtain a where "a \<in> set xs" "snd a = Max (snd ` set xs)"
    by auto
  then show ?thesis
    by (intro bexI [of _ a]) simp_all
qed

lemma best_loop_find:
  "best_loop xs bs bm =
     (case find (\<lambda>(m, s). bs < s \<and> (\<forall>s' \<in> snd ` set xs. s' \<le> s)) xs of
        Some (m, s) \<Rightarrow> Some m | None \<Rightarrow> bm)"
proof (induction xs arbitrary: bs bm)
  case Nil
  show ?case by simp
next
  case (Cons a xs)
  obtain m s where a: "a = (m, s)" by (cases a)
  show ?case
  proof (cases "bs < s")
    case True
    show ?thesis
    proof (cases "\<forall>s' \<in> snd ` set xs. s' \<le> s")
      case all: True
      then have "find (\<lambda>(m', s'). s < s' \<and> (\<forall>t \<in> snd ` set xs. t \<le> s')) xs = None"
        by (auto simp: find_None_iff)
      with True all a show ?thesis
        by (simp add: Cons.IH)
    next
      case some: False
      then obtain t where t: "t \<in> snd ` set xs" "s < t"
        by (auto simp: not_le)
      then have "xs \<noteq> []" by auto
      from exists_top [OF this] obtain c where c: "c \<in> set xs" "\<forall>t \<in> snd ` set xs. t \<le> snd c"
        by blast
      with t have "s < snd c" by auto
      with c have "\<exists>a. a \<in> set xs \<and> (case a of (m', s') \<Rightarrow> s < s' \<and> (\<forall>t \<in> snd ` set xs. t \<le> s'))"
        by (intro exI [of _ c]) (simp add: case_prod_beta)
      then have "find (\<lambda>(m', s'). s < s' \<and> (\<forall>t \<in> snd ` set xs. t \<le> s')) xs \<noteq> None"
        by (simp only: find_None_iff not_not)
      then obtain m' s' where found: "find (\<lambda>(m', s'). s < s' \<and> (\<forall>t \<in> snd ` set xs. t \<le> s')) xs = Some (m', s')"
        by auto
      have "find (\<lambda>(m', s'). s < s' \<and> (\<forall>t \<in> snd ` set xs. t \<le> s')) xs
          = find (\<lambda>(m', s'). bs < s' \<and> (\<forall>t \<in> snd ` set (a # xs). t \<le> s')) xs"
        using True some a by (intro find_cong refl) (fastforce simp: not_le)
      with found have found': "find (\<lambda>(m', s'). bs < s' \<and> (\<forall>t \<in> snd ` set (a # xs). t \<le> s')) xs = Some (m', s')"
        by simp
      have "\<not> (bs < s \<and> (\<forall>t \<in> snd ` set (a # xs). t \<le> s))"
        using some by auto
      then have "find (\<lambda>(m', s'). bs < s' \<and> (\<forall>t \<in> snd ` set (a # xs). t \<le> s')) (a # xs) = Some (m', s')"
        using found' a by auto
      moreover have "best_loop (a # xs) bs bm = Some m'"
        using True a found by (simp add: Cons.IH)
      ultimately show ?thesis
        by simp
    qed
  next
    case False
    have "find (\<lambda>(m', s'). bs < s' \<and> (\<forall>t \<in> snd ` set xs. t \<le> s')) xs
        = find (\<lambda>(m', s'). bs < s' \<and> (\<forall>t \<in> snd ` set (a # xs). t \<le> s')) xs"
      using False a by (intro find_cong refl) (fastforce simp: not_less)
    moreover have "find (\<lambda>(m', s'). bs < s' \<and> (\<forall>t \<in> snd ` set (a # xs). t \<le> s')) (a # xs)
        = find (\<lambda>(m', s'). bs < s' \<and> (\<forall>t \<in> snd ` set (a # xs). t \<le> s')) xs"
      using False a by simp
    moreover have "best_loop (a # xs) bs bm = best_loop xs bs bm"
      using False a by simp
    ultimately show ?thesis
      by (simp only: Cons.IH)
  qed
qed

lemma best_loop_pick:
  assumes "\<forall>s \<in> set scores. \<exists>v. s = Fin v" and "length ms = length scores"
  shows "best_loop (zip ms scores) NegInf None = pick_first_max ms scores"
proof -
  have snd_zip: "snd ` set (zip ms scores) = set scores"
    using assms(2) by (metis map_snd_zip set_map)
  have "find (\<lambda>(m, s). NegInf < s \<and> (\<forall>s' \<in> set scores. s' \<le> s)) (zip ms scores)
      = find (\<lambda>(m, s). \<forall>s' \<in> set scores. s' \<le> s) (zip ms scores)"
  proof (intro find_cong refl)
    fix a assume "a \<in> set (zip ms scores)"
    then have "snd a \<in> set scores"
      by (metis in_set_zipE prod.collapse)
    with assms(1) obtain v where "snd a = Fin v" by blast
    then have "NegInf < snd a" by (simp add: less_score_def)
    then show "(case a of (m, s) \<Rightarrow> NegInf < s \<and> (\<forall>s' \<in> set scores. s' \<le> s))
        = (case a of (m, s) \<Rightarrow> \<forall>s' \<in> set scores. s' \<le> s)"
      by (cases a) simp
  qed
  then show ?thesis
    by (simp add: best_loop_find snd_zip pick_first_max_def split: option.splits)
qed

lemma minimax_move_pick:
  assumes "board_wf b"
  shows "minimax_move ai b d =
           Some (pick_first_max (get_valid_moves b)
                   (map (\<lambda>m. full ai (snd (place_stone b (fst m) (snd m) (player ai))) (d - 1) False)
                        (get_valid_moves b)), b)"
proof (cases "get_valid_moves b = []")
  case True
  then show ?thesis
    by (simp add: minimax_move_def pick_first_max_def)
next
  case False
  let ?f = "\<lambda>m. full ai (snd (place_stone b (fst m) (snd m) (player ai))) (d - 1) False"
  let ?vm = "get_valid_moves b"
  have fin: "\<forall>s \<in> set (map ?f ?vm). \<exists>v. s = Fin v"
    using full_finite [OF board_wf_place [OF assms]] by auto
  have "map (\<lambda>m. (m, ?f m)) ?vm = zip ?vm (map ?f ?vm)"
    by (simp add: zip_map2 zip_same_conv_map)
  with best_loop_pick [OF fin, of ?vm] have "best_loop (map (\<lambda>m. (m, ?f m)) ?vm) NegInf None = pick_first_max ?vm (map ?f ?vm)"
    by simp
  with False minimax_move_loop_best [OF assms valid_in_get_valid_moves, of ai "d - 1" NegInf None]
  show ?thesis
    by (simp add: minimax_move_def Let_def)
qed

lemma exhaustive_move_pick:
  "exhaustive_move ai b d =
     Some (pick_first_max (get_valid_moves b)
             (map (\<lambda>m. full ai (snd (place_stone b (fst m) (snd m) (player ai))) (d - 1) False)
                  (get_valid_moves b)))"
proof -
  have "(\<lambda>(x, y). exhaustive ai (snd (place_stone b x y (player ai))) (d - 1) False)
      = (\<lambda>m. Some (full ai (snd (place_stone b (fst m) (snd m) (player ai))) (d - 1) False))"
    by (auto simp: exhaustive_full)
  then show ?thesis
    by (simp add: exhaustive_move_def those_map_Some del: One_nat_def)
qed

lemma pick_first_max_index:
  assumes "pick_first_max ms scores = Some m" and "length ms = length scores"
  shows "\<exists>i < length ms. m = ms ! i \<and> (\<forall>j < length ms. scores ! j \<le> scores ! i)
           \<and> (\<forall>j < i. scores ! j < scores ! i)"
proof -
  let ?P = "\<lambda>a :: 'a \<times> score. \<forall>s' \<in> set scores. s' \<le> snd a"
  have P: "(\<lambda>(m, s). \<forall>s' \<in> set scores. s' \<le> s) = ?P"
    by (rule ext) (simp add: case_prod_beta)
  from assms(1) obtain s where "find ?P (zip ms scores) = Some (m, s)"
    unfolding pick_first_max_def P by auto
  then obtain i where i: "i < length (zip ms scores)"
    and top: "?P (zip ms scores ! i)"
    and at: "(m, s) = zip ms scores ! i"
    and first: "\<forall>j < i. \<not> ?P (zip ms scores ! j)"
    unfolding find_Some_iff by blast
  from i assms(2) have il: "i < length ms" "i < length scores" by simp_all
  then have si: "snd (zip ms scores ! i) = scores ! i"
    by simp
  from il at have mi: "m = ms ! i"
    by simp
  have "scores ! j < scores ! i" if "j < i" for j
  proof -
    from that il have jl: "j < length scores" "j < length ms" by simp_all
    from first that have "\<not> ?P (zip ms scores ! j)" by blast
    with jl obtain s' where "s' \<in> set scores" "\<not> s' \<le> scores ! j"
      by auto
    moreover from this top si have "s' \<le> scores ! i" by simp
    ultimately show ?thesis by (simp add: not_le)
  qed
  moreover have "scores ! j \<le> scores ! i" if "j < length ms" for j
    using that top si assms(2) by simp
  ultimately show ?thesis
    using il mi by blast
qed

lemma pick_first_max_Some:
  assumes "ms \<noteq> []" and "length ms = length scores"
  shows "\<exists>m. pick_first_max ms scores = Some m"
proof -
  from assms have "set scores \<noteq> {}" by auto
  then have "Max (set scores) \<in> set scores"
    by (intro Max_in) simp_all
  then obtain i where i: "i < length scores" "scores ! i = Max (set scores)"
    by (auto simp: in_set_conv_nth)
  with assms(2) have "(ms ! i, scores ! i) \<in> set (zip ms scores)"
    by (auto simp: in_set_zip)
  moreover have "\<forall>s' \<in> set scores. s' \<le> scores ! i"
    using i by simp
  ultimately have "find (\<lambda>(m, s). \<forall>s' \<in> set scores. s' \<le> s) (zip ms scores) \<noteq> None"
    by (auto simp: find_None_iff)
  then show ?thesis
    by (auto simp: pick_first_max_def)
qed

lemma pick_first_max_mem:
  assumes "pick_first_max ms scores = Some m"
  shows "m \<in> set ms"
proof -
  let ?P = "\<lambda>a :: 'a \<times> score. \<forall>s' \<in> set scores. s' \<le> snd a"
  have P: "(\<lambda>(m, s). \<forall>s' \<in> set scores. s' \<le> s) = ?P"
    by (rule ext) (simp add: case_prod_beta)
  from assms obtain s where "find ?P (zip ms scores) = Some (m, s)"
    unfolding pick_first_max_def P by auto
  then obtain i where "i < length (zip ms scores)" "(m, s) = zip ms scores ! i"
    unfolding find_Some_iff by blast
  then have "(m, s) \<in> set (zip ms scores)"
    by (metis nth_mem)
  then show ?thesis
    by (rule in_set_zipE)
qed

lemma get_best_move_easy:
  assumes "difficulty ai = ''Easy''" and "get_valid_moves b \<noteq> []"
  shows "get_best_move ai b rnd =
           Some (Some (case find (wins_if_placed b (player ai)) (get_valid_moves b) of
                         Some w \<Rightarrow> w
                       | None \<Rightarrow>
                          (case find (wins_if_placed b (opponent ai)) (get_valid_moves b) of
                             Some w \<Rightarrow> w
                           | None \<Rightarrow> get_valid_moves b ! (rnd mod length (get_valid_moves b)))), b)"
  using assms easy_loop_find [OF valid_in_get_valid_moves, of b]
  by (simp add: get_best_move_def random_choice_def Let_def split: option.splits)

lemma get_best_move_search:
  assumes "difficulty ai \<noteq> ''Easy''"
  shows "get_best_move ai b rnd = minimax_move ai b (search_depth ai)"
  using assms by (simp add: get_best_move_def search_depth_def minimax_move_def Let_def)

lemma get_best_move_returns:
  assumes "board_wf b"
  shows "\<exists>m. get_best_move ai b rnd = Some (m, b) \<and> (m = None \<longleftrightarrow> get_valid_moves b = [])
           \<and> (\<forall>c. m = Some c \<longrightarrow> c \<in> set (get_valid_moves b))"
proof (cases "get_valid_moves b = []")
  case True
  then show ?thesis
    by (simp add: get_best_move_def)
next
  case False
  show ?thesis
  proof (cases "difficulty ai = ''Easy''")
    case True
    let ?vm = "get_valid_moves b"
    let ?c = "case find (wins_if_placed b (player ai)) ?vm of
                Some w \<Rightarrow> w
              | None \<Rightarrow>
                 (case find (wins_if_placed b (opponent ai)) ?vm of
                    Some w \<Rightarrow> w
                  | None \<Rightarrow> ?vm ! (rnd mod length ?vm))"
    have "rnd mod length ?vm < length ?vm"
      using False by simp
    then have pick: "?vm ! (rnd mod length ?vm) \<in> set ?vm"
      by (rule nth_mem)
    have found: "find P ?vm = Some w \<Longrightarrow> w \<in> set ?vm" for P w
      unfolding find_Some_iff by (metis nth_mem)
    have "?c \<in> set ?vm"
    proof (cases "find (wins_if_placed b (player ai)) ?vm")
      case (Some w)
      with found [OF Some] show ?thesis by simp
    next
      case None
      show ?thesis
      proof (cases "find (wins_if_placed b (opponent ai)) ?vm")
        case (Some w)
        with found [OF Some] None show ?thesis by simp
      next
        case none: None
        with None pick show ?thesis by simp
      qed
    qed
    then show ?thesis
      using False unfolding get_best_move_easy [OF True False] by (intro exI [of _ "Some ?c"]) simp
  next
    case search: False
    let ?vm = "get_valid_moves b"
    let ?scores = "map (\<lambda>m. full ai (snd (place_stone b (fst m) (snd m) (player ai))) (search_depth ai - 1) False) ?vm"
    from pick_first_max_Some [OF False, of ?scores] obtain m
      where m: "pick_first_max ?vm ?scores = Some m" by auto
    then have "m \<in> set ?vm"
      by (rule pick_first_max_mem)
    with m False show ?thesis
      unfolding get_best_move_search [OF search] minimax_move_pick [OF assms]
      by (intro exI [of _ "Some m"]) simp
  qed
qed

section \<open>The claims\<close>

text \<open>
  C1. For every board of the constructor's shape, every depth, either side to move and
  every window, \<open>minimax\<close> returns and leaves the board exactly as it was given; and so
  do \<open>get_best_move\<close> at every difficulty and for every random draw, \<open>minimax_move\<close> at
  every depth of at least 1, and the place, \<open>check_win\<close>, undo loop of the Easy tier for
  either stone. The statement is about every call, so it covers the exits by pruning and
  the early returns of a winning or blocking move.
\<close>

theorem search_restores_board:
  assumes "board_wf b"
  shows "(\<exists>s. minimax ai b d is_maximizing alpha beta = Some (s, b))
       \<and> (\<exists>m. get_best_move ai b rnd = Some (m, b))
       \<and> (1 \<le> d \<longrightarrow> (\<exists>m. minimax_move ai b d = Some (m, b)))
       \<and> (\<exists>m. easy_loop b (get_valid_moves b) p = Some (m, b))"
  using minimax_returns(1) [OF assms, of ai d is_maximizing alpha beta]
    get_best_move_returns [OF assms, of ai rnd]
    minimax_move_pick [OF assms, of ai d]
    easy_loop_find [OF valid_in_get_valid_moves, of b p]
  by blast

theorem search_restores_board_witness:
  "board_wf (Board_init 3) \<and> (1::nat) \<le> 2
   \<and> (\<exists>s. minimax (AI_init 2 ''Hard'') (Board_init 3) 2 True (Fin 0) (Fin 5) = Some (s, Board_init 3))
   \<and> (\<exists>m. get_best_move (AI_init 2 ''Easy'') (Board_init 3) 4 = Some (m, Board_init 3))
   \<and> (\<exists>m. minimax_move (AI_init 2 ''Hard'') (Board_init 3) 2 = Some (m, Board_init 3))
   \<and> (\<exists>m. easy_loop (Board_init 3) (get_valid_moves (Board_init 3)) 1 = Some (m, Board_init 3))"
  using search_restores_board [OF board_wf_Board_init [of 3], of "AI_init 2 ''Hard''" 2 True "Fin 0" "Fin 5" _ 1]
    search_restores_board [OF board_wf_Board_init [of 3], of "AI_init 2 ''Easy''" 2 True "Fin 0" "Fin 5" 4 1]
    board_wf_Board_init [of 3]
  by simp



text \<open>
  C3. For every board of the constructor's shape, every difficulty and every random
  draw, \<open>get_best_move\<close> returns; it returns no move if and only if \<open>get_valid_moves\<close> is
  empty, which is the case if and only if no cell of the board is empty.
\<close>

theorem get_best_move_none_iff_full:
  assumes "board_wf b"
  shows "\<exists>m. get_best_move ai b rnd = Some (m, b)
           \<and> (m = None \<longleftrightarrow> get_valid_moves b = [])
           \<and> (get_valid_moves b = [] \<longleftrightarrow> (\<forall>x y. in_range b x y \<longrightarrow> cell b x y \<noteq> 0))"
proof -
  have "(get_valid_moves b = []) = (\<forall>x y. in_range b x y \<longrightarrow> cell b x y \<noteq> 0)"
    using set_get_valid_moves [of b] by (auto simp: is_valid_move_iff simp flip: set_empty)
  with get_best_move_returns [OF assms, of ai rnd] show ?thesis
    by auto
qed

theorem get_best_move_none_iff_full_witness:
  "board_wf full_board \<and> get_valid_moves full_board = []
   \<and> get_best_move (AI_init 2 ''Hard'') full_board 0 = Some (None, full_board)
   \<and> board_wf (Board_init 2) \<and> get_valid_moves (Board_init 2) \<noteq> []
   \<and> (\<exists>c. get_best_move (AI_init 2 ''Normal'') (Board_init 2) 0 = Some (Some c, Board_init 2))"
proof -
  have wf: "board_wf full_board" and vm: "get_valid_moves full_board = []"
    and vm2: "get_valid_moves (Board_init 2) \<noteq> []"
    by code_simp+
  show ?thesis
    using get_best_move_none_iff_full [OF wf, of "AI_init 2 ''Hard''" 0]
      get_best_move_none_iff_full [OF board_wf_Board_init [of 2], of "AI_init 2 ''Normal''" 0]
      wf vm vm2 board_wf_Board_init [of 2]
    by auto
qed

text \<open>
  C4. For every board of the constructor's shape and every depth, \<open>minimax\<close> with the
  full window returns the value of exhaustive minimax over the same game tree; the move
  that \<open>minimax_move\<close> selects at a depth of at least 1 is the move that exhaustive
  minimax selects; and so is the move that \<open>get_best_move\<close> returns at every difficulty
  other than Easy.
\<close>

theorem alpha_beta_equals_exhaustive:
  assumes "board_wf b"
  shows "(\<exists>s. minimax ai b d is_maximizing NegInf PosInf = Some (s, b)
              \<and> exhaustive ai b d is_maximizing = Some s)
       \<and> (1 \<le> d \<longrightarrow> (\<exists>m. minimax_move ai b d = Some (m, b) \<and> exhaustive_move ai b d = Some m))
       \<and> (difficulty ai \<noteq> ''Easy'' \<longrightarrow>
            (\<exists>m. get_best_move ai b rnd = Some (m, b)
                \<and> exhaustive_move ai b (search_depth ai) = Some m))"
  using minimax_exact [OF assms, of ai d is_maximizing] exhaustive_full [of ai b d is_maximizing]
    minimax_move_pick [OF assms, of ai] exhaustive_move_pick [of ai b]
    get_best_move_search [of ai b rnd]
  by simp

theorem alpha_beta_equals_exhaustive_witness:
  "board_wf (Board_init 2) \<and> (1::nat) \<le> 3 \<and> difficulty (AI_init 2 ''Hard'') \<noteq> ''Easy''
   \<and> (\<exists>s. minimax (AI_init 2 ''Hard'') (Board_init 2) 3 True NegInf PosInf = Some (s, Board_init 2)
          \<and> exhaustive (AI_init 2 ''Hard'') (Board_init 2) 3 True = Some s)
   \<and> (\<exists>m. minimax_move (AI_init 2 ''Hard'') (Board_init 2) 3 = Some (m, Board_init 2)
          \<and> exhaustive_move (AI_init 2 ''Hard'') (Board_init 2) 3 = Some m)
   \<and> (\<exists>m. get_best_move (AI_init 2 ''Hard'') (Board_init 2) 0 = Some (m, Board_init 2)
          \<and> exhaustive_move (AI_init 2 ''Hard'') (Board_init 2) (search_depth (AI_init 2 ''Hard'')) = Some m)"
proof -
  have tier: "difficulty (AI_init 2 ''Hard'') \<noteq> ''Easy''"
    by (simp add: AI_init_def)
  show ?thesis
    using alpha_beta_equals_exhaustive [OF board_wf_Board_init [of 2], of "AI_init 2 ''Hard''" 3 True 0]
      tier board_wf_Board_init [of 2]
    by simp
qed

text \<open>
  C5. For a board of the shape the constructor gives, any coordinates and any player:
  when the coordinates are in range and the cell is empty (that is, when
  \<open>is_valid_move\<close> holds), \<open>place_stone\<close> returns true, the cell \<open>(x, y)\<close> holds the
  player afterwards and every other cell keeps its value; otherwise (a negative
  coordinate, a coordinate at or beyond the size, an occupied cell) it returns false
  and the board is unchanged.
\<close>

theorem place_stone_spec:
  assumes "board_wf b"
  shows "is_valid_move b x y = (0 \<le> x \<and> x < int (size_b b) \<and> 0 \<le> y \<and> y < int (size_b b) \<and> cell b x y = 0)
       \<and> (is_valid_move b x y \<longrightarrow>
            fst (place_stone b x y p) = True
          \<and> cell (snd (place_stone b x y p)) x y = p
          \<and> (\<forall>x' y'. in_range b x' y' \<and> (x', y') \<noteq> (x, y) \<longrightarrow>
                cell (snd (place_stone b x y p)) x' y' = cell b x' y')
          \<and> size_b (snd (place_stone b x y p)) = size_b b
          \<and> board_wf (snd (place_stone b x y p)))
       \<and> (\<not> is_valid_move b x y \<longrightarrow> place_stone b x y p = (False, b))"
proof -
  have valid: "is_valid_move b x y = (in_range b x y \<and> cell b x y = 0)"
    by (rule is_valid_move_iff)
  have placed: "is_valid_move b x y \<Longrightarrow> place_stone b x y p = (True, set_cell b x y p)"
    by (simp add: place_stone_def)
  have refused: "\<not> is_valid_move b x y \<Longrightarrow> place_stone b x y p = (False, b)"
    by (simp add: place_stone_def)
  show ?thesis
    using assms valid placed refused
    by (auto simp: in_range_def cell_set_cell_same cell_set_cell_other board_wf_set_cell)
qed

theorem place_stone_spec_witness:
  "board_wf (Board_init 3)
   \<and> is_valid_move (Board_init 3) 1 2
   \<and> fst (place_stone (Board_init 3) 1 2 2) = True
   \<and> cell (snd (place_stone (Board_init 3) 1 2 2)) 1 2 = 2
   \<and> in_range (Board_init 3) 0 2 \<and> ((0, 2) :: int \<times> int) \<noteq> (1, 2)
   \<and> cell (snd (place_stone (Board_init 3) 1 2 2)) 0 2 = cell (Board_init 3) 0 2
   \<and> \<not> is_valid_move (Board_init 3) (- 1) 3
   \<and> place_stone (Board_init 3) (- 1) 3 1 = (False, Board_init 3)"
proof -
  have wf: "board_wf (Board_init 3)"
    by (rule board_wf_Board_init)
  have v: "is_valid_move (Board_init 3) 1 2"
    by (simp add: is_valid_move_def Board_init_def cell_def)
  have r: "in_range (Board_init 3) 0 2"
    by (simp add: in_range_def Board_init_def)
  have nv: "\<not> is_valid_move (Board_init 3) (- 1) 3"
    by (simp add: is_valid_move_def Board_init_def)
  show ?thesis
    using wf v r nv place_stone_spec [OF wf, of 1 2 2] place_stone_spec [OF wf, of "- 1" 3 1]
    by simp
qed

text \<open>
  C6. With the difficulty Easy and at least one legal move, \<open>get_best_move\<close> returns a
  legal move and leaves the board as it was: the first legal move, in the order of
  \<open>get_valid_moves\<close>, on which a stone of the engine satisfies \<open>check_win\<close>; if there is
  none, the first legal move on which a stone of the opponent satisfies \<open>check_win\<close>; if
  there is none either, the legal move at the index drawn at random. The result does
  not depend on \<open>minimax\<close>.
\<close>

theorem easy_tier_choice:
  assumes "difficulty ai = ''Easy''" and "get_valid_moves b \<noteq> []"
  shows "\<exists>m \<in> set (get_valid_moves b).
           get_best_move ai b rnd = Some (Some m, b)
         \<and> m = (case find (wins_if_placed b (player ai)) (get_valid_moves b) of
                  Some w \<Rightarrow> w
                | None \<Rightarrow>
                   (case find (wins_if_placed b (opponent ai)) (get_valid_moves b) of
                      Some w \<Rightarrow> w
                    | None \<Rightarrow> get_valid_moves b ! (rnd mod length (get_valid_moves b))))"
proof -
  let ?vm = "get_valid_moves b"
  let ?c = "case find (wins_if_placed b (player ai)) ?vm of
              Some w \<Rightarrow> w
            | None \<Rightarrow>
               (case find (wins_if_placed b (opponent ai)) ?vm of
                  Some w \<Rightarrow> w
                | None \<Rightarrow> ?vm ! (rnd mod length ?vm))"
  have "rnd mod length ?vm < length ?vm"
    using assms(2) by simp
  then have pick: "?vm ! (rnd mod length ?vm) \<in> set ?vm"
    by (rule nth_mem)
  have found: "find P ?vm = Some w \<Longrightarrow> w \<in> set ?vm" for P w
    unfolding find_Some_iff by (metis nth_mem)
  have "?c \<in> set ?vm"
  proof (cases "find (wins_if_placed b (player ai)) ?vm")
    case (Some w)
    with found [OF Some] show ?thesis by simp
  next
    case None
    show ?thesis
    proof (cases "find (wins_if_placed b (opponent ai)) ?vm")
      case (Some w)
      with found [OF Some] None show ?thesis by simp
    next
      case none: None
      with None pick show ?thesis by simp
    qed
  qed
  then show ?thesis
    using get_best_move_easy [OF assms, of rnd] by (intro bexI [of _ ?c]) simp_all
qed

theorem easy_tier_choice_witness:
  "difficulty (AI_init 1 ''Easy'') = ''Easy''
   \<and> get_valid_moves (open_four 2) \<noteq> [] \<and> get_valid_moves (open_four 1) \<noteq> []
   \<and> get_valid_moves (Board_init 5) \<noteq> []
   \<and> get_best_move (AI_init 1 ''Easy'') (open_four 2) 7 = Some (Some (4, 2), open_four 2)
   \<and> get_best_move (AI_init 1 ''Easy'') (open_four 1) 7 = Some (Some (4, 2), open_four 1)
   \<and> get_best_move (AI_init 1 ''Easy'') (Board_init 5) 7 = Some (Some (2, 1), Board_init 5)"
proof -
  have tier: "difficulty (AI_init 1 ''Easy'') = ''Easy''"
    by (simp add: AI_init_def)
  have vm: "get_valid_moves (open_four 2) \<noteq> []" "get_valid_moves (open_four 1) \<noteq> []"
      "get_valid_moves (Board_init 5) \<noteq> []"
    by code_simp+
  have own: "(case find (wins_if_placed (open_four 2) (player (AI_init 1 ''Easy''))) (get_valid_moves (open_four 2)) of
                Some w \<Rightarrow> w
              | None \<Rightarrow>
                 (case find (wins_if_placed (open_four 2) (opponent (AI_init 1 ''Easy''))) (get_valid_moves (open_four 2)) of
                    Some w \<Rightarrow> w
                  | None \<Rightarrow> get_valid_moves (open_four 2) ! (7 mod length (get_valid_moves (open_four 2))))) = (4, 2)"
    by code_simp
  have block: "(case find (wins_if_placed (open_four 1) (player (AI_init 1 ''Easy''))) (get_valid_moves (open_four 1)) of
                Some w \<Rightarrow> w
              | None \<Rightarrow>
                 (case find (wins_if_placed (open_four 1) (opponent (AI_init 1 ''Easy''))) (get_valid_moves (open_four 1)) of
                    Some w \<Rightarrow> w
                  | None \<Rightarrow> get_valid_moves (open_four 1) ! (7 mod length (get_valid_moves (open_four 1))))) = (4, 2)"
    by code_simp
  have rand: "(case find (wins_if_placed (Board_init 5) (player (AI_init 1 ''Easy''))) (get_valid_moves (Board_init 5)) of
                Some w \<Rightarrow> w
              | None \<Rightarrow>
                 (case find (wins_if_placed (Board_init 5) (opponent (AI_init 1 ''Easy''))) (get_valid_moves (Board_init 5)) of
                    Some w \<Rightarrow> w
                  | None \<Rightarrow> get_valid_moves (Board_init 5) ! (7 mod length (get_valid_moves (Board_init 5))))) = (2, 1)"
    by code_simp
  show ?thesis
    using easy_tier_choice [OF tier vm(1), of 7] easy_tier_choice [OF tier vm(2), of 7]
      easy_tier_choice [OF tier vm(3), of 7] tier vm
    unfolding own block rand by blast
qed

text \<open>
  C7. For every count of at least 1 and every number of blocked ends among 0, 1 and 2,
  the line score is 100000 when the count is at least 5; otherwise 0 when both ends
  are blocked; otherwise 10 to the power count - 1, halved by integer division when
  one end is blocked and unchanged when none is.
\<close>

theorem calculate_line_score_spec:
  assumes "1 \<le> count" and "blocked \<in> {0, 1, 2}"
  shows "calculate_line_score count blocked =
           (if 5 \<le> count then 100000
            else if blocked = 2 then 0
            else if blocked = 1 then (10 ^ nat (count - 1)) div 2
            else 10 ^ nat (count - 1))"
  using assms by (auto simp: calculate_line_score_def Let_def)

theorem calculate_line_score_spec_witness:
  "(1::int) \<le> 3 \<and> (1::int) \<in> {0, 1, 2} \<and> calculate_line_score 3 1 = 50"
  using calculate_line_score_spec [of 3 1] by simp

text \<open>
  C8. With a difficulty other than Easy (Normal, Hard, or any other string), on a board
  of the constructor's shape with a legal move: every candidate move has a score, the
  value \<open>minimax\<close> returns for it; \<open>get_best_move\<close> returns the move at the first index,
  in the order of \<open>get_valid_moves\<close>, whose score is maximal (the scores before it are
  strictly smaller); the result is the same for every random draw; and
  \<open>get_valid_moves\<close> lists exactly the empty cells in row-major order.
\<close>

theorem search_tiers_first_best:
  assumes "board_wf b" and "difficulty ai \<noteq> ''Easy''" and "get_valid_moves b \<noteq> []"
  shows "\<exists>scores i.
           map (move_score ai b (search_depth ai - 1)) (get_valid_moves b) = map Some scores
         \<and> i < length (get_valid_moves b)
         \<and> get_best_move ai b rnd = Some (Some (get_valid_moves b ! i), b)
         \<and> (\<forall>j < length (get_valid_moves b). scores ! j \<le> scores ! i)
         \<and> (\<forall>j < i. scores ! j < scores ! i)
         \<and> get_best_move ai b rnd' = get_best_move ai b rnd
         \<and> sorted_wrt row_major (get_valid_moves b)
         \<and> set (get_valid_moves b) = {(x, y). in_range b x y \<and> cell b x y = 0}"
proof -
  let ?vm = "get_valid_moves b"
  let ?f = "\<lambda>m. full ai (snd (place_stone b (fst m) (snd m) (player ai))) (search_depth ai - 1) False"
  let ?scores = "map ?f ?vm"
  have "move_score ai b (search_depth ai - 1) m = Some (?f m)" for m
    by (simp add: move_score_def minimax_exact [OF board_wf_place [OF assms(1)]])
  then have scores: "map (move_score ai b (search_depth ai - 1)) ?vm = map Some ?scores"
    by simp
  from pick_first_max_Some [OF assms(3), of ?scores] obtain m
    where m: "pick_first_max ?vm ?scores = Some m" by auto
  from pick_first_max_index [OF m] obtain i where i: "i < length ?vm" "m = ?vm ! i"
    and top: "\<forall>j < length ?vm. ?scores ! j \<le> ?scores ! i"
    and first: "\<forall>j < i. ?scores ! j < ?scores ! i"
    by auto
  have run: "get_best_move ai b r = Some (Some (?vm ! i), b)" for r
    using m i by (simp add: get_best_move_search [OF assms(2)] minimax_move_pick [OF assms(1)])
  have cells: "set ?vm = {(x, y). in_range b x y \<and> cell b x y = 0}"
    by (simp add: set_get_valid_moves is_valid_move_iff)
  show ?thesis
    using scores i(1) run top first sorted_get_valid_moves [of b] cells
    by (intro exI [of _ ?scores] exI [of _ i]) (simp only: simp_thms)
qed

theorem search_tiers_first_best_witness:
  "board_wf (Board_init 2) \<and> difficulty (AI_init 2 ''Normal'') \<noteq> ''Easy''
   \<and> get_valid_moves (Board_init 2) \<noteq> []
   \<and> (\<exists>scores i.
         map (move_score (AI_init 2 ''Normal'') (Board_init 2) (search_depth (AI_init 2 ''Normal'') - 1))
             (get_valid_moves (Board_init 2)) = map Some scores
       \<and> i < length (get_valid_moves (Board_init 2))
       \<and> get_best_move (AI_init 2 ''Normal'') (Board_init 2) 0
           = Some (Some (get_valid_moves (Board_init 2) ! i), Board_init 2)
       \<and> (\<forall>j < length (get_valid_moves (Board_init 2)). scores ! j \<le> scores ! i)
       \<and> (\<forall>j < i. scores ! j < scores ! i)
       \<and> get_best_move (AI_init 2 ''Normal'') (Board_init 2) 5 = get_best_move (AI_init 2 ''Normal'') (Board_init 2) 0
       \<and> sorted_wrt row_major (get_valid_moves (Board_init 2))
       \<and> set (get_valid_moves (Board_init 2)) = {(x, y). in_range (Board_init 2) x y \<and> cell (Board_init 2) x y = 0})"
proof -
  have tier: "difficulty (AI_init 2 ''Normal'') \<noteq> ''Easy''"
    by (simp add: AI_init_def)
  have vm: "get_valid_moves (Board_init 2) \<noteq> []"
    by code_simp
  show ?thesis
    using search_tiers_first_best [OF board_wf_Board_init [of 2] tier vm, of 0 5]
      tier vm board_wf_Board_init [of 2]
    by blast
qed

text \<open>
  C9, as stated, fails: the board has no operation that resets one cell. The only
  methods of \<^verbatim>\<open>Board\<close> that write to the grid are \<^verbatim>\<open>place_stone\<close> and \<^verbatim>\<open>reset\<close>. On the
  board with five stones in a row, \<^verbatim>\<open>place_stone\<close> with the value 0 (or with any stone) on
  the occupied cell (4, 7) is refused and the stone stays, and \<^verbatim>\<open>reset\<close> clears the other
  stones as well.
\<close>

theorem board_has_no_clear_cell:
  "cell five_in_row 4 7 = 1
   \<and> place_stone five_in_row 4 7 0 = (False, five_in_row)
   \<and> cell (snd (place_stone five_in_row 4 7 0)) 4 7 = 1
   \<and> cell (snd (place_stone five_in_row 4 7 2)) 4 7 = 1
   \<and> cell five_in_row 3 7 = 1
   \<and> cell (reset five_in_row) 3 7 = 0"
  by code_simp

text \<open>
  C9, amended. The undo step of the search is the write \<^verbatim>\<open>board.board[y][x] = 0\<close> in
  \<^verbatim>\<open>ai.py\<close> (\<open>set_cell\<close> with the value 0), not a method of the board and not
  \<open>place_stone\<close>. On a board of the constructor's shape and at an in-range cell the write
  sets that cell to empty whatever it held and leaves every other cell alone, where
  \<open>place_stone\<close> on an occupied cell returns false and changes nothing. For an empty cell
  \<open>(x, y)\<close>: each loop of the search that explores the move (\<open>max_loop\<close> and \<open>min_loop\<close> of
  \<open>minimax\<close>, the loop of \<open>_minimax_move\<close>, the loop of the Easy tier) returns and leaves
  the board that this write makes of the board with the stone placed, which is the board
  as it was; \<open>place_stone\<close> with the value 0 in its place would leave the stone.
\<close>

theorem undo_clears_cell:
  assumes "board_wf b" and "in_range b x y"
  shows "cell (set_cell b x y 0) x y = 0
       \<and> (\<forall>x' y'. in_range b x' y' \<and> (x', y') \<noteq> (x, y) \<longrightarrow> cell (set_cell b x y 0) x' y' = cell b x' y')
       \<and> (cell b x y \<noteq> 0 \<longrightarrow> place_stone b x y v = (False, b))
       \<and> (cell b x y = 0 \<longrightarrow>
            set_cell (snd (place_stone b x y p)) x y 0 = b
          \<and> (p \<noteq> 0 \<longrightarrow> snd (place_stone (snd (place_stone b x y p)) x y 0) \<noteq> b)
          \<and> (\<exists>s. max_loop ai b d1 [(x, y)] s0 alpha beta
                  = Some (s, set_cell (snd (place_stone b x y (player ai))) x y 0))
          \<and> (\<exists>s. min_loop ai b d1 [(x, y)] s0 alpha beta
                  = Some (s, set_cell (snd (place_stone b x y (opponent ai))) x y 0))
          \<and> (\<exists>m. minimax_move_loop ai b d1 [(x, y)] bs bm
                  = Some (m, set_cell (snd (place_stone b x y (player ai))) x y 0))
          \<and> (\<exists>m. easy_loop b [(x, y)] p
                  = Some (m, set_cell (snd (place_stone b x y p)) x y 0)))"
proof -
  have refuse: "place_stone b x y v = (False, b)" if "cell b x y \<noteq> 0"
    using that by (simp add: place_stone_def is_valid_move_iff)
  have search: "set_cell (snd (place_stone b x y q)) x y 0 = b
      \<and> (q \<noteq> 0 \<longrightarrow> snd (place_stone (snd (place_stone b x y q)) x y 0) \<noteq> b)
      \<and> (\<exists>s. max_loop ai b d1 [(x, y)] s0 alpha beta = Some (s, b))
      \<and> (\<exists>s. min_loop ai b d1 [(x, y)] s0 alpha beta = Some (s, b))
      \<and> (\<exists>m. minimax_move_loop ai b d1 [(x, y)] bs bm = Some (m, b))
      \<and> (\<exists>m. easy_loop b [(x, y)] q = Some (m, b))" if empty: "cell b x y = 0" for q
  proof -
    from empty assms(2) have valid: "is_valid_move b x y"
      by (simp add: is_valid_move_iff)
    then have one: "valid_in b [(x, y)]"
      by (simp add: valid_in_def)
    have undo: "set_cell (snd (place_stone b x y q)) x y 0 = b"
      using valid by (rule undo_place)
    have stays: "snd (place_stone (snd (place_stone b x y q)) x y 0) \<noteq> b" if "q \<noteq> 0"
    proof -
      let ?b1 = "snd (place_stone b x y q)"
      have placed: "cell ?b1 x y = q"
        using valid assms by (simp add: place_stone_def cell_set_cell_same)
      with that have "snd (place_stone ?b1 x y 0) = ?b1"
        by (simp add: place_stone_def is_valid_move_iff)
      moreover have "?b1 \<noteq> b"
        using placed that empty by auto
      ultimately show ?thesis by simp
    qed
    show ?thesis
      using undo stays minimax_returns(2) [OF assms(1) one, of ai d1 s0 alpha beta]
        minimax_returns(3) [OF assms(1) one, of ai d1 s0 alpha beta]
        minimax_move_loop_best [OF assms(1) one, of ai d1 bs bm]
        easy_loop_find [OF one, of q]
      by blast
  qed
  have cleared: "cell (set_cell b x y 0) x y = 0"
    using assms by (rule cell_set_cell_same)
  have others: "cell (set_cell b x y 0) x' y' = cell b x' y'"
    if "in_range b x' y'" "(x', y') \<noteq> (x, y)" for x' y'
    using assms that by (rule cell_set_cell_other)
  show ?thesis
  proof (cases "cell b x y = 0")
    case True
    from search [OF True, of p] search [OF True, of "player ai"] search [OF True, of "opponent ai"]
    show ?thesis
      using cleared others True by simp
  next
    case False
    with refuse cleared others show ?thesis by simp
  qed
qed

theorem undo_clears_cell_witness:
  "board_wf five_in_row \<and> in_range five_in_row 4 7 \<and> cell five_in_row 4 7 \<noteq> 0
   \<and> cell (set_cell five_in_row 4 7 0) 4 7 = 0
   \<and> in_range five_in_row 3 7 \<and> ((3, 7) :: int \<times> int) \<noteq> (4, 7)
   \<and> cell (set_cell five_in_row 4 7 0) 3 7 = cell five_in_row 3 7
   \<and> place_stone five_in_row 4 7 0 = (False, five_in_row)
   \<and> board_wf (Board_init 2) \<and> in_range (Board_init 2) 1 0 \<and> cell (Board_init 2) 1 0 = 0
   \<and> (2::int) \<noteq> 0
   \<and> set_cell (snd (place_stone (Board_init 2) 1 0 2)) 1 0 0 = Board_init 2
   \<and> snd (place_stone (snd (place_stone (Board_init 2) 1 0 2)) 1 0 0) \<noteq> Board_init 2
   \<and> (\<exists>s. max_loop (AI_init 2 ''Hard'') (Board_init 2) 1 [(1, 0)] NegInf NegInf PosInf
          = Some (s, set_cell (snd (place_stone (Board_init 2) 1 0 (player (AI_init 2 ''Hard'')))) 1 0 0))
   \<and> (\<exists>s. min_loop (AI_init 2 ''Hard'') (Board_init 2) 1 [(1, 0)] PosInf NegInf PosInf
          = Some (s, set_cell (snd (place_stone (Board_init 2) 1 0 (opponent (AI_init 2 ''Hard'')))) 1 0 0))
   \<and> (\<exists>m. minimax_move_loop (AI_init 2 ''Hard'') (Board_init 2) 1 [(1, 0)] NegInf None
          = Some (m, set_cell (snd (place_stone (Board_init 2) 1 0 (player (AI_init 2 ''Hard'')))) 1 0 0))
   \<and> (\<exists>m. easy_loop (Board_init 2) [(1, 0)] 2
          = Some (m, set_cell (snd (place_stone (Board_init 2) 1 0 2)) 1 0 0))"
proof -
  have wf: "board_wf five_in_row"
    by code_simp
  have r: "in_range five_in_row 4 7" "in_range five_in_row 3 7" "in_range (Board_init 2) 1 0"
    by code_simp+
  have c: "cell five_in_row 4 7 \<noteq> 0" "cell (Board_init 2) 1 0 = 0"
    by code_simp+
  show ?thesis
    using undo_clears_cell [OF wf r(1), of 0 2 "AI_init 2 ''Hard''" 1 NegInf NegInf PosInf NegInf None]
      undo_clears_cell [OF board_wf_Board_init [of 2] r(3), of 0 2 "AI_init 2 ''Hard''" 1 NegInf NegInf PosInf NegInf None]
      undo_clears_cell [OF board_wf_Board_init [of 2] r(3), of 0 2 "AI_init 2 ''Hard''" 1 PosInf NegInf PosInf NegInf None]
      wf r c board_wf_Board_init [of 2]
    by simp
qed

text \<open>
  C10. On a board of the constructor's shape, whenever \<open>get_best_move\<close> returns a move
  \<open>(x, y)\<close>, at any difficulty and for any random draw, the move is an element of
  \<open>get_valid_moves\<close> of the board it was given: its coordinates are in range and its cell
  is empty.
\<close>

theorem get_best_move_is_valid:
  assumes "board_wf b" and "get_best_move ai b rnd = Some (Some (x, y), b')"
  shows "(x, y) \<in> set (get_valid_moves b) \<and> is_valid_move b x y
       \<and> 0 \<le> x \<and> x < int (size_b b) \<and> 0 \<le> y \<and> y < int (size_b b) \<and> cell b x y = 0"
proof -
  from get_best_move_returns [OF assms(1), of ai rnd] assms(2)
  have "(x, y) \<in> set (get_valid_moves b)"
    by auto
  then show ?thesis
    by (auto simp: set_get_valid_moves is_valid_move_iff in_range_def)
qed

theorem get_best_move_is_valid_witness:
  "board_wf (Board_init 2)
   \<and> get_best_move (AI_init 2 ''Normal'') (Board_init 2) 0 = Some (Some (0, 0), Board_init 2)
   \<and> ((0, 0) :: int \<times> int) \<in> set (get_valid_moves (Board_init 2)) \<and> cell (Board_init 2) 0 0 = 0"
proof -
  have run: "get_best_move (AI_init 2 ''Normal'') (Board_init 2) 0 = Some (Some (0, 0), Board_init 2)"
    by code_simp
  show ?thesis
    using get_best_move_is_valid [OF board_wf_Board_init run] run board_wf_Board_init [of 2]
    by simp
qed

end
